theory Spec2Isabelle
  imports Complex_Main
begin

section \<open>GPS track simplification (utils/simplifier.py, class GPSSimplifier)\<close>

subsection \<open>float64 values\<close>

text \<open>
  A NumPy float64 is a finite value, one of the two infinities, or NaN. Finite values are
  taken as exact reals (no rounding, no overflow, one zero); the special values follow
  the IEEE-754 rules that NumPy applies, where arithmetic never raises.
\<close>

datatype fl = Fin real | PInf | NInf | NaN

datatype py_error = ValueError | IndexError

fun fneg :: "fl \<Rightarrow> fl" where
  "fneg (Fin a) = Fin (- a)"
| "fneg PInf = NInf"
| "fneg NInf = PInf"
| "fneg NaN = NaN"

fun fadd :: "fl \<Rightarrow> fl \<Rightarrow> fl" where
  "fadd (Fin a) (Fin b) = Fin (a + b)"
| "fadd NaN _ = NaN"
| "fadd _ NaN = NaN"
| "fadd PInf NInf = NaN"
| "fadd NInf PInf = NaN"
| "fadd PInf _ = PInf"
| "fadd _ PInf = PInf"
| "fadd NInf _ = NInf"
| "fadd _ NInf = NInf"

definition fsub :: "fl \<Rightarrow> fl \<Rightarrow> fl" where
  "fsub x y = fadd x (fneg y)"

fun fmul :: "fl \<Rightarrow> fl \<Rightarrow> fl" where
  "fmul (Fin a) (Fin b) = Fin (a * b)"
| "fmul NaN _ = NaN"
| "fmul _ NaN = NaN"
| "fmul (Fin a) PInf = (if a = 0 then NaN else if 0 < a then PInf else NInf)"
| "fmul (Fin a) NInf = (if a = 0 then NaN else if 0 < a then NInf else PInf)"
| "fmul PInf (Fin b) = (if b = 0 then NaN else if 0 < b then PInf else NInf)"
| "fmul NInf (Fin b) = (if b = 0 then NaN else if 0 < b then NInf else PInf)"
| "fmul PInf PInf = PInf"
| "fmul PInf NInf = NInf"
| "fmul NInf PInf = NInf"
| "fmul NInf NInf = PInf"

fun fdiv :: "fl \<Rightarrow> fl \<Rightarrow> fl" where
  "fdiv (Fin a) (Fin b) =
     (if b = 0 then (if a = 0 then NaN else if 0 < a then PInf else NInf) else Fin (a / b))"
| "fdiv NaN _ = NaN"
| "fdiv _ NaN = NaN"
| "fdiv (Fin a) PInf = Fin 0"
| "fdiv (Fin a) NInf = Fin 0"
| "fdiv PInf (Fin b) = (if 0 \<le> b then PInf else NInf)"
| "fdiv NInf (Fin b) = (if 0 \<le> b then NInf else PInf)"
| "fdiv PInf PInf = NaN"
| "fdiv PInf NInf = NaN"
| "fdiv NInf PInf = NaN"
| "fdiv NInf NInf = NaN"

fun fsqrt :: "fl \<Rightarrow> fl" where
  "fsqrt (Fin a) = (if a < 0 then NaN else Fin (sqrt a))"
| "fsqrt PInf = PInf"
| "fsqrt NInf = NaN"
| "fsqrt NaN = NaN"

fun fcos :: "fl \<Rightarrow> fl" where
  "fcos (Fin a) = Fin (cos a)"
| "fcos PInf = NaN"
| "fcos NInf = NaN"
| "fcos NaN = NaN"

text \<open>The comparison \<open>x > y\<close>: false as soon as one side is NaN.\<close>

fun fgt :: "fl \<Rightarrow> fl \<Rightarrow> bool" where
  "fgt (Fin a) (Fin b) = (b < a)"
| "fgt NaN _ = False"
| "fgt _ NaN = False"
| "fgt NInf _ = False"
| "fgt _ PInf = False"
| "fgt PInf _ = True"
| "fgt _ NInf = True"

text \<open>\<open>np.clip(t, 0.0, 1.0)\<close>, that is \<open>minimum(maximum(t, 0), 1)\<close>; NaN passes through.\<close>

fun fclip01 :: "fl \<Rightarrow> fl" where
  "fclip01 (Fin a) = Fin (min (max a 0) 1)"
| "fclip01 PInf = Fin 1"
| "fclip01 NInf = Fin 0"
| "fclip01 NaN = NaN"

text \<open>\<open>np.deg2rad(x)\<close> is \<open>x * (pi / 180)\<close>.\<close>

definition deg2rad :: "fl \<Rightarrow> fl" where
  "deg2rad x = fmul x (Fin (pi / 180))"

text \<open>\<open>np.mean\<close> of a one-dimensional array: the sum divided by the number of elements.\<close>

definition np_mean :: "fl list \<Rightarrow> fl" where
  "np_mean xs = fdiv (foldl fadd (Fin 0) xs) (Fin (real (length xs)))"

text \<open>
  \<open>np.argmax\<close> of a non-empty array: the first index of the maximum, where a NaN counts
  as the maximum (the first NaN wins). \<open>argmax_from bi bv k xs\<close> scans \<open>xs\<close>, whose first
  element has index \<open>k\<close>, with the best index \<open>bi\<close> and best value \<open>bv\<close> so far.
\<close>

fun argmax_from :: "nat \<Rightarrow> fl \<Rightarrow> nat \<Rightarrow> fl list \<Rightarrow> nat" where
  "argmax_from bi bv k [] = bi"
| "argmax_from bi bv k (x # xs) =
     (if bv \<noteq> NaN \<and> (x = NaN \<or> fgt x bv) then argmax_from k x (Suc k) xs
      else argmax_from bi bv (Suc k) xs)"

definition argmax :: "fl \<Rightarrow> fl list \<Rightarrow> nat" where
  "argmax d ds = argmax_from 0 d 1 ds"

subsection \<open>Python indexing\<close>

text \<open>
  An integer index counts from the end when negative and raises IndexError out of range;
  a slice \<open>xs[lo:hi]\<close> wraps negative bounds and clips both to the length.
\<close>

definition py_get :: "'a list \<Rightarrow> int \<Rightarrow> py_error + 'a" where
  "py_get xs i =
     (let n = int (length xs); k = (if i < 0 then i + n else i)
      in if 0 \<le> k \<and> k < n then Inr (xs ! nat k) else Inl IndexError)"

definition py_set :: "'a list \<Rightarrow> int \<Rightarrow> 'a \<Rightarrow> py_error + 'a list" where
  "py_set xs i v =
     (let n = int (length xs); k = (if i < 0 then i + n else i)
      in if 0 \<le> k \<and> k < n then Inr (xs[nat k := v]) else Inl IndexError)"

definition slice_bound :: "int \<Rightarrow> int \<Rightarrow> nat" where
  "slice_bound n i = (if i < 0 then nat (max (i + n) 0) else nat (min i n))"

definition py_slice :: "'a list \<Rightarrow> int \<Rightarrow> int \<Rightarrow> 'a list" where
  "py_slice xs lo hi =
     (let n = int (length xs); l = slice_bound n lo; h = slice_bound n hi
      in take (h - l) (drop l xs))"

text \<open>Fancy indexing \<open>xs[indices]\<close> with an array of non-negative indices.\<close>

fun py_take :: "'a list \<Rightarrow> nat list \<Rightarrow> py_error + 'a list" where
  "py_take xs [] = Inr []"
| "py_take xs (k # ks) =
     (if k < length xs
      then (case py_take xs ks of Inl e \<Rightarrow> Inl e | Inr ys \<Rightarrow> Inr (xs ! k # ys))
      else Inl IndexError)"

subsection \<open>Planar points\<close>

type_synonym point = "fl \<times> fl"

fun vsub :: "point \<Rightarrow> point \<Rightarrow> point" where
  "vsub (x1, y1) (x2, y2) = (fsub x1 x2, fsub y1 y2)"

fun vadd :: "point \<Rightarrow> point \<Rightarrow> point" where
  "vadd (x1, y1) (x2, y2) = (fadd x1 x2, fadd y1 y2)"

fun smul :: "fl \<Rightarrow> point \<Rightarrow> point" where
  "smul t (x, y) = (fmul t x, fmul t y)"

fun np_dot :: "point \<Rightarrow> point \<Rightarrow> fl" where
  "np_dot (x1, y1) (x2, y2) = fadd (fmul x1 x2) (fmul y1 y2)"

text \<open>\<open>np.linalg.norm\<close> of a vector: the square root of its dot product with itself.\<close>

definition linalg_norm :: "point \<Rightarrow> fl" where
  "linalg_norm v = fsqrt (np_dot v v)"

definition EARTH_RADIUS_M :: fl where
  "EARTH_RADIUS_M = Fin 6371000"

subsection \<open>latlon_to_xy\<close>

text \<open>\<open>np.column_stack((x, y))\<close> raises ValueError when the two columns differ in length.\<close>

definition column_stack :: "fl list \<Rightarrow> fl list \<Rightarrow> py_error + point list" where
  "column_stack x y = (if length x = length y then Inr (zip x y) else Inl ValueError)"

definition latlon_to_xy :: "fl list \<Rightarrow> fl list \<Rightarrow> py_error + point list" where
  "latlon_to_xy latitudes longitudes =
     (if length latitudes = 0 then Inr []
      else
        let lat0_rad = deg2rad (np_mean latitudes);
            cos_lat0 = fcos lat0_rad;
            lat_rad = map deg2rad latitudes;
            lon_rad = map deg2rad longitudes;
            x = map (\<lambda>l. fmul (fmul EARTH_RADIUS_M l) cos_lat0) lon_rad;
            y = map (\<lambda>l. fmul EARTH_RADIUS_M l) lat_rad
        in column_stack x y)"

subsection \<open>Point to segment distance\<close>

definition point_segment_distance_numpy :: "point \<Rightarrow> point \<Rightarrow> point \<Rightarrow> fl" where
  "point_segment_distance_numpy p a b =
     (let ab = vsub b a;
          ap = vsub p a;
          ab_len2 = np_dot ab ab
      in if ab_len2 = Fin 0 then linalg_norm ap
         else
           let t = fdiv (np_dot ap ab) ab_len2;
               t' = fclip01 t;
               nearest = vadd a (smul t' ab)
           in linalg_norm (vsub p nearest))"

subsection \<open>The Ramer-Douglas-Peucker loop\<close>

text \<open>
  The work stack is a list whose head is the top: \<open>stack.pop()\<close> takes the head and
  \<open>stack.append\<close> conses. The loop may in principle run forever or raise IndexError from an
  index expression, so its result is an optional sum.
\<close>

partial_function (option) rdp_loop ::
  "point list \<Rightarrow> fl \<Rightarrow> (int \<times> int) list \<Rightarrow> bool list \<Rightarrow> (py_error + bool list) option" where
  "rdp_loop points_xy epsilon stack keep =
     (case stack of
        [] \<Rightarrow> Some (Inr keep)
      | ij # stack' \<Rightarrow>
          let i = fst ij; j = snd ij in
          if j - i \<le> 1 then rdp_loop points_xy epsilon stack' keep
          else
            (case py_get points_xy i of
               Inl e \<Rightarrow> Some (Inl e)
             | Inr a \<Rightarrow>
                 (case py_get points_xy j of
                    Inl e \<Rightarrow> Some (Inl e)
                  | Inr b \<Rightarrow>
                      let segment_points = py_slice points_xy (i + 1) j;
                          distances = map (\<lambda>point. point_segment_distance_numpy point a b)
                                        segment_points;
                          max_dist = (case distances of [] \<Rightarrow> Fin (- 1)
                                      | d # ds \<Rightarrow> (d # ds) ! argmax d ds);
                          max_idx = (case distances of [] \<Rightarrow> - 1
                                     | d # ds \<Rightarrow> i + 1 + int (argmax d ds))
                      in if fgt max_dist epsilon
                         then (case py_set keep max_idx True of
                                 Inl e \<Rightarrow> Some (Inl e)
                               | Inr keep' \<Rightarrow>
                                   rdp_loop points_xy epsilon
                                     ((max_idx, j) # (i, max_idx) # stack') keep')
                         else rdp_loop points_xy epsilon stack' keep)))"

text \<open>\<open>np.nonzero(keep)[0]\<close>: the indices of the true entries, ascending.\<close>

definition np_nonzero :: "bool list \<Rightarrow> nat list" where
  "np_nonzero keep = filter (\<lambda>k. keep ! k) [0..<length keep]"

definition rdp_indices_numpy :: "point list \<Rightarrow> fl \<Rightarrow> (py_error + nat list) option" where
  "rdp_indices_numpy points_xy epsilon =
     (let n = length points_xy in
      if n \<le> 2 then Some (Inr [0..<n])
      else
        let stack = [(0, int n - 1)];
            keep = (replicate n False)[0 := True, n - 1 := True]
        in (case rdp_loop points_xy epsilon stack keep of
              None \<Rightarrow> None
            | Some (Inl e) \<Rightarrow> Some (Inl e)
            | Some (Inr keep') \<Rightarrow> Some (Inr (np_nonzero keep'))))"

definition rdp_indices :: "point list \<Rightarrow> fl \<Rightarrow> (py_error + nat list) option" where
  "rdp_indices points_xy epsilon =
     (if length points_xy = 0 then Some (Inr [])
      else rdp_indices_numpy points_xy epsilon)"

subsection \<open>simplify\<close>

text \<open>
  The object holds the default tolerance. A track comes either as a table or as a pair of
  parallel arrays. A table is modelled by its number of rows, its \<open>latitude\<close> and
  \<open>longitude\<close> columns when it has them, and its other named columns; every column has
  \<open>n_rows\<close> entries. Each of the two labels occurs at most once: with a repeated label
  pandas selects a two-dimensional block instead of a column, which this model leaves out.
\<close>

record gps_simplifier =
  epsilon_meters :: fl

record dataframe =
  n_rows :: nat
  latitude_col :: "fl list option"
  longitude_col :: "fl list option"
  other_cols :: "(string \<times> fl list) list"

datatype track_data = DataFrame dataframe | Arrays "fl list" "fl list"

text \<open>\<open>df.iloc[indices].reset_index(drop=True)\<close>: the chosen rows of every column.\<close>

definition iloc_opt :: "fl list option \<Rightarrow> nat list \<Rightarrow> py_error + fl list option" where
  "iloc_opt col indices =
     (case col of
        None \<Rightarrow> Inr None
      | Some c \<Rightarrow> (case py_take c indices of Inl e \<Rightarrow> Inl e | Inr c' \<Rightarrow> Inr (Some c')))"

fun iloc_cols :: "(string \<times> fl list) list \<Rightarrow> nat list \<Rightarrow> py_error + (string \<times> fl list) list" where
  "iloc_cols [] indices = Inr []"
| "iloc_cols (c # rest) indices =
     (case py_take (snd c) indices of
        Inl e \<Rightarrow> Inl e
      | Inr col \<Rightarrow>
          (case iloc_cols rest indices of
             Inl e \<Rightarrow> Inl e
           | Inr rest' \<Rightarrow> Inr ((fst c, col) # rest')))"

definition df_iloc :: "dataframe \<Rightarrow> nat list \<Rightarrow> py_error + dataframe" where
  "df_iloc df indices =
     (case iloc_opt (latitude_col df) indices of
        Inl e \<Rightarrow> Inl e
      | Inr la \<Rightarrow>
          (case iloc_opt (longitude_col df) indices of
             Inl e \<Rightarrow> Inl e
           | Inr lo \<Rightarrow>
               (case iloc_cols (other_cols df) indices of
                  Inl e \<Rightarrow> Inl e
                | Inr others \<Rightarrow>
                    Inr \<lparr>n_rows = length indices, latitude_col = la, longitude_col = lo,
                         other_cols = others\<rparr>)))"

definition simplify_dataframe :: "dataframe \<Rightarrow> fl \<Rightarrow> (py_error + dataframe) option" where
  "simplify_dataframe df epsilon =
     (case latitude_col df of
        None \<Rightarrow> Some (Inl ValueError)
      | Some latitudes \<Rightarrow>
          (case longitude_col df of
             None \<Rightarrow> Some (Inl ValueError)
           | Some longitudes \<Rightarrow>
               if n_rows df \<le> 2 then Some (Inr df)
               else
                 (case latlon_to_xy latitudes longitudes of
                    Inl e \<Rightarrow> Some (Inl e)
                  | Inr points_xy \<Rightarrow>
                      (case rdp_indices points_xy epsilon of
                         None \<Rightarrow> None
                       | Some (Inl e) \<Rightarrow> Some (Inl e)
                       | Some (Inr indices) \<Rightarrow> Some (df_iloc df indices)))))"

definition simplify_arrays ::
  "fl list \<Rightarrow> fl list \<Rightarrow> fl \<Rightarrow> (py_error + fl list \<times> fl list) option" where
  "simplify_arrays latitudes longitudes epsilon =
     (if length latitudes \<le> 2 then Some (Inr (latitudes, longitudes))
      else
        (case latlon_to_xy latitudes longitudes of
           Inl e \<Rightarrow> Some (Inl e)
         | Inr points_xy \<Rightarrow>
             (case rdp_indices points_xy epsilon of
                None \<Rightarrow> None
              | Some (Inl e) \<Rightarrow> Some (Inl e)
              | Some (Inr indices) \<Rightarrow>
                  (case py_take latitudes indices of
                     Inl e \<Rightarrow> Some (Inl e)
                   | Inr lats \<Rightarrow>
                       (case py_take longitudes indices of
                          Inl e \<Rightarrow> Some (Inl e)
                        | Inr lons \<Rightarrow> Some (Inr (lats, lons)))))))"

definition simplify ::
  "gps_simplifier \<Rightarrow> track_data \<Rightarrow> fl option \<Rightarrow> (py_error + track_data) option" where
  "simplify self data epsilon_opt =
     (let epsilon = (case epsilon_opt of Some e \<Rightarrow> e | None \<Rightarrow> epsilon_meters self) in
      case data of
        DataFrame df \<Rightarrow>
          (case simplify_dataframe df epsilon of
             None \<Rightarrow> None
           | Some (Inl e) \<Rightarrow> Some (Inl e)
           | Some (Inr df') \<Rightarrow> Some (Inr (DataFrame df')))
      | Arrays latitudes longitudes \<Rightarrow>
          (case simplify_arrays latitudes longitudes epsilon of
             None \<Rightarrow> None
           | Some (Inl e) \<Rightarrow> Some (Inl e)
           | Some (Inr r) \<Rightarrow> Some (Inr (Arrays (fst r) (snd r)))))"

subsection \<open>The recursive reading of the loop\<close>

text \<open>
  \<open>seg_dists pts i j\<close> are the distances of the interior points of the range \<open>(i, j)\<close> to the
  segment from point \<open>i\<close> to point \<open>j\<close>. \<open>rdp_split pts eps i j\<close> is the set of indices that the
  textbook recursion marks inside the range; the loop is proved below to mark exactly
  these. The stack invariant \<open>stack_ok\<close> and the weight \<open>wt\<close> serve that proof.
\<close>

definition seg_dists :: "point list \<Rightarrow> nat \<Rightarrow> nat \<Rightarrow> fl list" where
  "seg_dists pts i j =
     map (\<lambda>p. point_segment_distance_numpy p (pts ! i) (pts ! j))
       (take (j - Suc i) (drop (Suc i) pts))"

function rdp_split :: "point list \<Rightarrow> fl \<Rightarrow> nat \<Rightarrow> nat \<Rightarrow> nat set" where
  "rdp_split pts eps i j =
     (if j \<le> Suc i \<or> length pts \<le> j then {}
      else (case seg_dists pts i j of
              [] \<Rightarrow> {}
            | d # ds \<Rightarrow>
                if fgt ((d # ds) ! argmax d ds) eps
                then insert (Suc i + argmax d ds)
                       (rdp_split pts eps i (Suc i + argmax d ds) \<union>
                        rdp_split pts eps (Suc i + argmax d ds) j)
                else {}))"
  by pat_completeness auto
termination
proof (relation "measure (\<lambda>(pts, eps, i, j). j - i)", goal_cases)
  case 1
  show ?case by simp
next
  case (2 pts eps i j d ds)
  have b: "argmax_from bi bv k xs = bi \<or>
           (k \<le> argmax_from bi bv k xs \<and> argmax_from bi bv k xs < k + length xs)"
    for bi bv k xs
  proof (induction xs arbitrary: bi bv k)
    case Nil
    show ?case by simp
  next
    case (Cons x xs)
    show ?case using Cons.IH[of k x "Suc k"] Cons.IH[of bi bv "Suc k"] by auto
  qed
  have "j < length pts" using 2 by simp
  then have "length (seg_dists pts i j) = j - Suc i" by (simp add: seg_dists_def)
  then have "length (d # ds) = j - Suc i" using 2 by simp
  with b[of 0 d 1 ds] show ?case by (auto simp: argmax_def)
next
  case (3 pts eps i j d ds)
  have b: "argmax_from bi bv k xs = bi \<or>
           (k \<le> argmax_from bi bv k xs \<and> argmax_from bi bv k xs < k + length xs)"
    for bi bv k xs
  proof (induction xs arbitrary: bi bv k)
    case Nil
    show ?case by simp
  next
    case (Cons x xs)
    show ?case using Cons.IH[of k x "Suc k"] Cons.IH[of bi bv "Suc k"] by auto
  qed
  have "j < length pts" using 3 by simp
  then have "length (seg_dists pts i j) = j - Suc i" by (simp add: seg_dists_def)
  then have "length (d # ds) = j - Suc i" using 3 by simp
  with b[of 0 d 1 ds] show ?case by (auto simp: argmax_def)
qed

declare rdp_split.simps [simp del]

definition wt :: "int \<times> int \<Rightarrow> nat" where
  "wt ij = 2 * nat (snd ij - fst ij) - 1"

definition stack_ok :: "nat \<Rightarrow> (int \<times> int) list \<Rightarrow> bool" where
  "stack_ok n stack = (\<forall>ij \<in> set stack. 0 \<le> fst ij \<and> fst ij < snd ij \<and> snd ij < int n)"

definition stack_split :: "point list \<Rightarrow> fl \<Rightarrow> (int \<times> int) list \<Rightarrow> nat set" where
  "stack_split pts eps stack =
     (\<Union>ij \<in> set stack. rdp_split pts eps (nat (fst ij)) (nat (snd ij)))"

text \<open>\<open>kept pts eps k\<close>: index \<open>k\<close> is an endpoint or is marked by the recursion on the whole range.\<close>

definition kept :: "point list \<Rightarrow> fl \<Rightarrow> nat \<Rightarrow> bool" where
  "kept pts eps k =
     (k = 0 \<or> k = length pts - 1 \<or> k \<in> rdp_split pts eps 0 (length pts - 1))"

subsection \<open>Real-valued reference notions\<close>

text \<open>
  Points with finite coordinates are pairs of reals; \<open>fin_pt\<close> embeds them. The distance of
  the specification is written on reals: the Euclidean distance \<open>euclid\<close>, the location
  \<open>on_segment a b t\<close> at parameter \<open>t\<close> of the segment, the projection parameter \<open>proj_param\<close>
  and, following the specification's words, \<open>spec_segment_distance\<close>: the plain distance
  for a zero-length segment, else the distance to the location at the clamped parameter.
\<close>

type_synonym rpoint = "real \<times> real"

definition fin_pt :: "rpoint \<Rightarrow> point" where
  "fin_pt p = (Fin (fst p), Fin (snd p))"

definition euclid :: "rpoint \<Rightarrow> rpoint \<Rightarrow> real" where
  "euclid p q = sqrt ((fst p - fst q) * (fst p - fst q) + (snd p - snd q) * (snd p - snd q))"

definition on_segment :: "rpoint \<Rightarrow> rpoint \<Rightarrow> real \<Rightarrow> rpoint" where
  "on_segment a b t = (fst a + t * (fst b - fst a), snd a + t * (snd b - snd a))"

definition proj_param :: "rpoint \<Rightarrow> rpoint \<Rightarrow> rpoint \<Rightarrow> real" where
  "proj_param p a b =
     ((fst p - fst a) * (fst b - fst a) + (snd p - snd a) * (snd b - snd a)) /
     ((fst b - fst a) * (fst b - fst a) + (snd b - snd a) * (snd b - snd a))"

definition spec_segment_distance :: "rpoint \<Rightarrow> rpoint \<Rightarrow> rpoint \<Rightarrow> real" where
  "spec_segment_distance p a b =
     (if a = b then euclid p a
      else euclid p (on_segment a b (min (max (proj_param p a b) 0) 1)))"

text \<open>A float is finite when it is neither an infinity nor NaN.\<close>

fun is_fin :: "fl \<Rightarrow> bool" where
  "is_fin (Fin a) = True"
| "is_fin PInf = False"
| "is_fin NInf = False"
| "is_fin NaN = False"

definition finite_point :: "point \<Rightarrow> bool" where
  "finite_point p = (is_fin (fst p) \<and> is_fin (snd p))"


text \<open>
  The projection following the specification's words, on finite coordinates: the cosine
  of the mean latitude scales every longitude; radians are degrees times \<open>pi / 180\<close>.
\<close>

definition spec_project :: "real list \<Rightarrow> real list \<Rightarrow> rpoint list" where
  "spec_project lats lons =
     (let cos0 = cos ((sum_list lats / real (length lats)) * (pi / 180))
      in map (\<lambda>(lat, lon). (6371000 * (lon * (pi / 180)) * cos0, 6371000 * (lat * (pi / 180))))
           (zip lats lons))"

text \<open>
  Planar coordinates of a sample track: the abscissa of a point one degree of longitude
  away under the cosine factor \<open>c\<close>, and the ordinate of latitude 90.
\<close>

definition bend_x :: "real \<Rightarrow> real" where
  "bend_x c = 6371000 * (pi / 180) * c"

definition pole_y :: real where
  "pole_y = 6371000 * (pi / 2)"

text \<open>
  The order behind \<open>argmax\<close>: \<open>beats x y\<close> when \<open>x\<close> replaces \<open>y\<close> as the running maximum
  (NaN is above everything). \<open>is_argmax xs r\<close>: position \<open>r\<close> beats every earlier position
  and is beaten by no later one.
\<close>

definition beats :: "fl \<Rightarrow> fl \<Rightarrow> bool" where
  "beats x y = (y \<noteq> NaN \<and> (x = NaN \<or> fgt x y))"

definition is_argmax :: "fl list \<Rightarrow> nat \<Rightarrow> bool" where
  "is_argmax xs r =
     (r < length xs \<and> (\<forall>k<r. beats (xs ! r) (xs ! k)) \<and>
      (\<forall>k<length xs. r < k \<longrightarrow> \<not> beats (xs ! k) (xs ! r)))"

section \<open>Properties\<close>

subsection \<open>Helper lemmas\<close>

lemma argmax_from_bound:
  "argmax_from bi bv k xs = bi \<or>
   (k \<le> argmax_from bi bv k xs \<and> argmax_from bi bv k xs < k + length xs)"
proof (induction xs arbitrary: bi bv k)
  case Nil
  then show ?case by simp
next
  case (Cons x xs)
  show ?case
    using Cons.IH[of k x "Suc k"] Cons.IH[of bi bv "Suc k"] by auto
qed

lemma argmax_lt: "argmax d ds < Suc (length ds)"
  using argmax_from_bound[of 0 d 1 ds] by (auto simp: argmax_def)

lemma length_seg_dists: "j < length pts \<Longrightarrow> length (seg_dists pts i j) = j - Suc i"
  by (simp add: seg_dists_def)

lemma py_get_in: "0 \<le> i \<Longrightarrow> i < int (length xs) \<Longrightarrow> py_get xs i = Inr (xs ! nat i)"
  by (simp add: py_get_def)

lemma py_set_in: "0 \<le> i \<Longrightarrow> i < int (length xs) \<Longrightarrow> py_set xs i v = Inr (xs[nat i := v])"
  by (simp add: py_set_def)

lemma py_slice_in:
  assumes "0 \<le> i" "i < j" "j < int (length xs)"
  shows "py_slice xs (i + 1) j = take (nat j - Suc (nat i)) (drop (Suc (nat i)) xs)"
proof -
  have a: "slice_bound (int (length xs)) (i + 1) = Suc (nat i)"
    using assms unfolding slice_bound_def by auto
  have b: "slice_bound (int (length xs)) j = nat j"
    using assms unfolding slice_bound_def by auto
  show ?thesis unfolding py_slice_def Let_def a b ..
qed

lemma rdp_loop_correct:
  assumes "stack_ok (length pts) stack" and "length keep = length pts"
  shows "\<exists>keep'. rdp_loop pts eps stack keep = Some (Inr keep') \<and> length keep' = length pts \<and>
           (\<forall>k < length pts. keep' ! k = (keep ! k \<or> k \<in> stack_split pts eps stack))"
  using assms
proof (induction "sum_list (map wt stack)" arbitrary: stack keep rule: less_induct)
  case less
  show ?case
  proof (cases stack)
    case Nil
    then show ?thesis
      by (subst rdp_loop.simps) (simp add: less.prems stack_split_def)
  next
    case (Cons ij stack')
    obtain i j where ij: "ij = (i, j)" by (cases ij)
    have ok: "0 \<le> i" "i < j" "j < int (length pts)" and ok': "stack_ok (length pts) stack'"
      using less.prems(1) Cons ij by (auto simp: stack_ok_def)
    have wpos: "1 \<le> wt (i, j)" using ok by (simp add: wt_def)
    show ?thesis
    proof (cases "j - i \<le> 1")
      case True
      have lt: "sum_list (map wt stack') < sum_list (map wt stack)"
        using Cons ij wpos by simp
      have e: "rdp_split pts eps (nat i) (nat j) = {}"
        using True ok by (subst rdp_split.simps) auto
      have s: "stack_split pts eps stack = stack_split pts eps stack'"
        using Cons ij e by (simp add: stack_split_def)
      have r: "rdp_loop pts eps stack keep = rdp_loop pts eps stack' keep"
        using Cons ij True by (subst rdp_loop.simps) simp
      from less.hyps[OF lt ok' less.prems(2)] show ?thesis
        unfolding r s .
    next
      case False
      let ?ni = "nat i" and ?nj = "nat j"
      have nij: "Suc ?ni < ?nj" "?nj < length pts" using False ok by auto
      have len: "length (seg_dists pts ?ni ?nj) = ?nj - Suc ?ni"
        using nij by (simp add: length_seg_dists)
      then obtain d ds where dds: "seg_dists pts ?ni ?nj = d # ds"
        using nij by (cases "seg_dists pts ?ni ?nj") auto
      let ?r = "argmax d ds"
      have rlt: "?r < ?nj - Suc ?ni" using argmax_lt[of d ds] len dds by simp
      let ?m = "i + 1 + int ?r"
      have m: "i < ?m" "?m < j" "nat ?m = Suc ?ni + ?r" using rlt ok by auto
      have dist: "map (\<lambda>point. point_segment_distance_numpy point (pts ! ?ni) (pts ! ?nj))
                    (py_slice pts (i + 1) j) = d # ds"
        using dds ok by (simp add: py_slice_in seg_dists_def)
      show ?thesis
      proof (cases "fgt ((d # ds) ! ?r) eps")
        case nosplit: False
        have lt: "sum_list (map wt stack') < sum_list (map wt stack)"
          using Cons ij wpos by simp
        have e: "rdp_split pts eps ?ni ?nj = {}"
          using nosplit nij dds by (subst rdp_split.simps) auto
        have s: "stack_split pts eps stack = stack_split pts eps stack'"
          using Cons ij e by (simp add: stack_split_def)
        have r: "rdp_loop pts eps stack keep = rdp_loop pts eps stack' keep"
          using Cons ij False nosplit ok dist
          by (subst rdp_loop.simps) (simp add: py_get_in Let_def)
        from less.hyps[OF lt ok' less.prems(2)] show ?thesis
          unfolding r s .
      next
        case split: True
        let ?stack2 = "(?m, j) # (i, ?m) # stack'"
        let ?keep2 = "keep[nat ?m := True]"
        have lt: "sum_list (map wt ?stack2) < sum_list (map wt stack)"
          using Cons ij m ok by (simp add: wt_def)
        have ok2: "stack_ok (length pts) ?stack2"
          using ok' ok m by (auto simp: stack_ok_def)
        have len2: "length ?keep2 = length pts" using less.prems(2) by simp
        have e: "rdp_split pts eps ?ni ?nj =
                 insert (nat ?m) (rdp_split pts eps ?ni (nat ?m) \<union> rdp_split pts eps (nat ?m) ?nj)"
          using split nij dds m by (subst rdp_split.simps) auto
        have s: "stack_split pts eps stack = insert (nat ?m) (stack_split pts eps ?stack2)"
          using Cons ij e ok m by (auto simp: stack_split_def)
        have mlt: "nat ?m < length pts" using m ok by auto
        have r: "rdp_loop pts eps stack keep = rdp_loop pts eps ?stack2 ?keep2"
          using Cons ij False split ok dist m less.prems(2)
          by (subst rdp_loop.simps) (simp add: py_get_in py_set_in Let_def)
        from less.hyps[OF lt ok2 len2] obtain keep' where
          k: "rdp_loop pts eps ?stack2 ?keep2 = Some (Inr keep')" "length keep' = length pts"
             "\<forall>k<length pts. keep' ! k = (?keep2 ! k \<or> k \<in> stack_split pts eps ?stack2)"
          by blast
        have "\<forall>k<length pts. keep' ! k = (keep ! k \<or> k \<in> stack_split pts eps stack)"
          using k(3) s less.prems(2) mlt by (auto simp: nth_list_update)
        with k(1,2) r show ?thesis by simp
      qed
    qed
  qed
qed

lemma rdp_split_bounds: "rdp_split pts eps i j \<subseteq> {i<..<j}"
proof (induction pts eps i j rule: rdp_split.induct)
  case (1 pts eps i j)
  show ?case
  proof (cases "j \<le> Suc i \<or> length pts \<le> j")
    case True
    then show ?thesis by (subst rdp_split.simps) simp
  next
    case False
    show ?thesis
    proof (cases "seg_dists pts i j")
      case Nil
      with False show ?thesis by (subst rdp_split.simps) simp
    next
      case (Cons d ds)
      have len: "Suc (length ds) = j - Suc i"
        using False Cons length_seg_dists[of j pts i] by simp
      have r: "argmax d ds < j - Suc i" using argmax_lt[of d ds] len by simp
      show ?thesis
      proof (cases "fgt ((d # ds) ! argmax d ds) eps")
        case nosplit: False
        with False Cons show ?thesis by (subst rdp_split.simps) simp
      next
        case True
        have a: "rdp_split pts eps i (Suc i + argmax d ds) \<subseteq> {i<..<Suc i + argmax d ds}"
          using "1.IH"(1)[OF False Cons True] .
        have b: "rdp_split pts eps (Suc i + argmax d ds) j \<subseteq> {Suc i + argmax d ds<..<j}"
          using "1.IH"(2)[OF False Cons True] .
        have e: "rdp_split pts eps i j =
                 insert (Suc i + argmax d ds)
                   (rdp_split pts eps i (Suc i + argmax d ds) \<union>
                    rdp_split pts eps (Suc i + argmax d ds) j)"
          using False Cons True by (subst rdp_split.simps) simp
        show ?thesis unfolding e using a b r by (auto simp: subset_iff)
      qed
    qed
  qed
qed

lemma rdp_indices_numpy_long:
  assumes "2 < length pts"
  shows "rdp_indices_numpy pts eps = Some (Inr (filter (kept pts eps) [0..<length pts]))"
proof -
  let ?n = "length pts"
  let ?keep = "(replicate ?n False)[0 := True, ?n - 1 := True]"
  have ok: "stack_ok ?n [(0, int ?n - 1)]" using assms by (simp add: stack_ok_def)
  have len: "length ?keep = ?n" by simp
  from rdp_loop_correct[OF ok len, of eps] obtain keep' where
    k: "rdp_loop pts eps [(0, int ?n - 1)] ?keep = Some (Inr keep')" "length keep' = ?n"
       "\<forall>k<?n. keep' ! k = (?keep ! k \<or> k \<in> stack_split pts eps [(0, int ?n - 1)])"
    by blast
  have n1: "nat (int ?n - 1) = ?n - 1" by simp
  have ss: "stack_split pts eps [(0, int ?n - 1)] = rdp_split pts eps 0 (?n - 1)"
    by (simp add: stack_split_def n1)
  have "\<forall>k<?n. keep' ! k = kept pts eps k"
  proof (intro allI impI)
    fix k assume kn: "k < ?n"
    have "?keep ! k = (k = 0 \<or> k = ?n - 1)"
    proof (cases "k = ?n - 1")
      case True
      then show ?thesis using kn by simp
    next
      case False
      then have "?keep ! k = (replicate ?n False)[0 := True] ! k" by simp
      also have "\<dots> = (k = 0)" using kn by (cases "k = 0") simp_all
      finally show ?thesis using False by simp
    qed
    with k(3) kn ss show "keep' ! k = kept pts eps k" by (auto simp: kept_def)
  qed
  then have "filter (\<lambda>k. keep' ! k) [0..<?n] = filter (kept pts eps) [0..<?n]"
    by (intro filter_cong) auto
  then have nz: "np_nonzero keep' = filter (kept pts eps) [0..<?n]"
    using k(2) by (simp add: np_nonzero_def)
  show ?thesis
    using assms k(1) nz by (simp add: rdp_indices_numpy_def Let_def)
qed

lemma rdp_indices_short:
  "length pts \<le> 2 \<Longrightarrow> rdp_indices pts eps = Some (Inr [0..<length pts])"
  by (auto simp: rdp_indices_def rdp_indices_numpy_def Let_def)

lemma rdp_indices_long:
  "2 < length pts \<Longrightarrow>
   rdp_indices pts eps = Some (Inr (filter (kept pts eps) [0..<length pts]))"
  using rdp_indices_numpy_long[of pts eps] by (auto simp: rdp_indices_def)

lemma fgt_trans: "fgt d e2 \<Longrightarrow> fgt e2 e1 \<Longrightarrow> fgt d e1"
  by (cases d; cases e2; cases e1) auto

lemma rdp_split_mono:
  assumes "fgt eps2 eps1"
  shows "rdp_split pts eps2 i j \<subseteq> rdp_split pts eps1 i j"
  using assms
proof (induction pts eps2 i j rule: rdp_split.induct)
  case (1 pts eps2 i j)
  show ?case
  proof (cases "j \<le> Suc i \<or> length pts \<le> j")
    case True
    then have "rdp_split pts eps2 i j = {}" by (subst rdp_split.simps) simp
    then show ?thesis by simp
  next
    case False
    show ?thesis
    proof (cases "seg_dists pts i j")
      case Nil
      with False have "rdp_split pts eps2 i j = {}" by (subst rdp_split.simps) simp
      then show ?thesis by simp
    next
      case (Cons d ds)
      let ?m = "Suc i + argmax d ds"
      show ?thesis
      proof (cases "fgt ((d # ds) ! argmax d ds) eps2")
        case nosplit: False
        with False Cons have "rdp_split pts eps2 i j = {}" by (subst rdp_split.simps) simp
        then show ?thesis by simp
      next
        case True
        have g1: "fgt ((d # ds) ! argmax d ds) eps1"
          using True "1.prems" by (rule fgt_trans)
        have a: "rdp_split pts eps2 i ?m \<subseteq> rdp_split pts eps1 i ?m"
          using "1.IH"(1)[OF False Cons True "1.prems"] .
        have b: "rdp_split pts eps2 ?m j \<subseteq> rdp_split pts eps1 ?m j"
          using "1.IH"(2)[OF False Cons True "1.prems"] .
        have e2: "rdp_split pts eps2 i j =
                  insert ?m (rdp_split pts eps2 i ?m \<union> rdp_split pts eps2 ?m j)"
          using False Cons True by (subst rdp_split.simps) simp
        have e1: "rdp_split pts eps1 i j =
                  insert ?m (rdp_split pts eps1 i ?m \<union> rdp_split pts eps1 ?m j)"
          using False Cons g1 by (subst rdp_split.simps) simp
        show ?thesis unfolding e1 e2 using a b by (auto simp: subset_iff)
      qed
    qed
  qed
qed

lemma length_filter_mono:
  "(\<And>x. x \<in> set xs \<Longrightarrow> P x \<Longrightarrow> Q x) \<Longrightarrow> length (filter P xs) \<le> length (filter Q xs)"
  by (induction xs) auto

lemma kept_ends: "kept pts eps 0" "kept pts eps (length pts - 1)"
  by (simp_all add: kept_def)

lemma sq_sum_not_neg: "\<not> (x * x + y * y < (0::real))"
  by (simp add: not_less)

lemma sq_sum_zero_iff: "(x * x + y * y = (0::real)) = (x = 0 \<and> y = 0)"
  by (simp add: sum_squares_eq_zero_iff)

lemma fsub_Fin: "fsub (Fin a) (Fin b) = Fin (a - b)"
  by (simp add: fsub_def)

lemma psd_fin:
  "point_segment_distance_numpy (fin_pt p) (fin_pt a) (fin_pt b) = Fin (spec_segment_distance p a b)"
proof (cases "a = b")
  case True
  then show ?thesis
    by (simp add: point_segment_distance_numpy_def fin_pt_def fsub_Fin linalg_norm_def
        spec_segment_distance_def euclid_def sq_sum_not_neg Let_def)
next
  case False
  then have nz: "(fst b - fst a) * (fst b - fst a) + (snd b - snd a) * (snd b - snd a) \<noteq> 0"
    by (auto simp: sq_sum_zero_iff prod_eq_iff)
  show ?thesis
    using False nz
    by (auto simp add: point_segment_distance_numpy_def fin_pt_def fsub_Fin linalg_norm_def
        spec_segment_distance_def euclid_def on_segment_def proj_param_def
        sq_sum_not_neg Let_def)
qed

lemma spec_segment_distance_nonneg: "0 \<le> spec_segment_distance p a b"
  by (simp add: spec_segment_distance_def euclid_def)

lemma quad_gap:
  fixes ux uy vx vy s t :: real
  shows "((ux - s * vx) * (ux - s * vx) + (uy - s * vy) * (uy - s * vy)) -
         ((ux - t * vx) * (ux - t * vx) + (uy - t * vy) * (uy - t * vy)) =
         (s - t) * ((s + t) * (vx * vx + vy * vy) - 2 * (ux * vx + uy * vy))"
  by (simp add: algebra_simps)

lemma lin1: "B \<le> 0 \<Longrightarrow> 0 \<le> A \<Longrightarrow> 0 \<le> A - 2 * (B::real)"
  by linarith

lemma lin2: "L \<le> B \<Longrightarrow> A \<le> 2 * L \<Longrightarrow> A - 2 * (B::real) \<le> 0"
  by linarith

lemma lin3: "x - y = g \<Longrightarrow> 0 \<le> g \<Longrightarrow> y \<le> (x::real)"
  by linarith

lemma clamp_minimises:
  fixes ux uy vx vy s :: real
  assumes L: "0 < vx * vx + vy * vy" and s: "0 \<le> s" "s \<le> 1"
  defines "t \<equiv> min (max ((ux * vx + uy * vy) / (vx * vx + vy * vy)) 0) 1"
  shows "(ux - t * vx) * (ux - t * vx) + (uy - t * vy) * (uy - t * vy) \<le>
         (ux - s * vx) * (ux - s * vx) + (uy - s * vy) * (uy - s * vy)"
proof -
  let ?L = "vx * vx + vy * vy" and ?uv = "ux * vx + uy * vy"
  let ?t0 = "?uv / ?L"
  have uv: "?uv = ?t0 * ?L" using L by simp
  have "0 \<le> (s - t) * ((s + t) * ?L - 2 * ?uv)"
  proof -
    consider "?t0 \<le> 0" | "1 \<le> ?t0" | "0 < ?t0" "?t0 < 1" by linarith
    then show ?thesis
    proof cases
      case 1
      then have t0: "t = 0" by (simp add: t_def)
      have "?uv \<le> 0" using 1 L by (simp add: divide_le_0_iff)
      moreover have "0 \<le> s * ?L" using s L by simp
      ultimately have "0 \<le> s * ?L - 2 * ?uv" by (rule lin1)
      then have "0 \<le> s * (s * ?L - 2 * ?uv)" using s by simp
      then show ?thesis using t0 by simp
    next
      case 2
      then have t1: "t = 1" by (simp add: t_def)
      have "?L \<le> ?uv" using 2 L by (simp add: le_divide_eq)
      moreover have "(s + 1) * ?L \<le> 2 * ?L"
        by (rule mult_right_mono) (use s L in simp_all)
      ultimately have "(s + 1) * ?L - 2 * ?uv \<le> 0" by (rule lin2)
      moreover have "s - 1 \<le> 0" using s by simp
      ultimately have "0 \<le> (s - 1) * ((s + 1) * ?L - 2 * ?uv)"
        by (rule mult_nonpos_nonpos[rotated])
      then show ?thesis using t1 by simp
    next
      case 3
      then have tt: "t = ?t0" by (simp add: t_def)
      have "(s - t) * ((s + t) * ?L - 2 * ?uv) = (s - t) * ((s + t) * ?L - 2 * (t * ?L))"
        using uv tt by simp
      also have "\<dots> = (s - t) * (s - t) * ?L" by (simp add: algebra_simps)
      finally have eq: "(s - t) * ((s + t) * ?L - 2 * ?uv) = (s - t) * (s - t) * ?L" .
      have "0 \<le> (s - t) * (s - t) * ?L"
        by (rule mult_nonneg_nonneg) (use L in simp_all)
      then show ?thesis by (simp only: eq)
    qed
  qed
  with quad_gap[of ux s vx uy vy t] show ?thesis by (rule lin3)
qed

lemma seg_nearest:
  assumes "0 \<le> s" "s \<le> 1"
  shows "spec_segment_distance p a b \<le> euclid p (on_segment a b s)"
proof (cases "a = b")
  case True
  then show ?thesis by (simp add: spec_segment_distance_def on_segment_def)
next
  case False
  let ?vx = "fst b - fst a" and ?vy = "snd b - snd a"
  let ?ux = "fst p - fst a" and ?uy = "snd p - snd a"
  have "?vx * ?vx + ?vy * ?vy \<noteq> 0"
    using False by (auto simp: sq_sum_zero_iff prod_eq_iff)
  moreover have "0 \<le> ?vx * ?vx + ?vy * ?vy" by simp
  ultimately have L: "0 < ?vx * ?vx + ?vy * ?vy" by linarith
  let ?t = "min (max (proj_param p a b) 0) 1"
  have e: "euclid p (on_segment a b r) =
           sqrt ((?ux - r * ?vx) * (?ux - r * ?vx) + (?uy - r * ?vy) * (?uy - r * ?vy))" for r
    by (simp add: euclid_def on_segment_def algebra_simps)
  have "(?ux - ?t * ?vx) * (?ux - ?t * ?vx) + (?uy - ?t * ?vy) * (?uy - ?t * ?vy) \<le>
        (?ux - s * ?vx) * (?ux - s * ?vx) + (?uy - s * ?vy) * (?uy - s * ?vy)"
    unfolding proj_param_def by (rule clamp_minimises[OF L assms])
  then have "euclid p (on_segment a b ?t) \<le> euclid p (on_segment a b s)"
    unfolding e by (rule real_sqrt_le_mono)
  then show ?thesis using False by (simp add: spec_segment_distance_def)
qed

lemma finite_point_fin_pt: "finite_point p \<Longrightarrow> \<exists>q. p = fin_pt q"
proof -
  assume f: "finite_point p"
  obtain x y where p: "p = (x, y)" by (cases p)
  from f p obtain rx ry where "x = Fin rx" "y = Fin ry"
    by (cases x; cases y) (auto simp: finite_point_def)
  with p have "p = fin_pt (rx, ry)" by (simp add: fin_pt_def)
  then show ?thesis ..
qed

lemma psd_finite_nonneg:
  assumes "finite_point p" "finite_point a" "finite_point b"
  shows "\<exists>d. 0 \<le> d \<and> point_segment_distance_numpy p a b = Fin d"
proof -
  from assms obtain p' a' b' where "p = fin_pt p'" "a = fin_pt a'" "b = fin_pt b'"
    by (blast dest: finite_point_fin_pt)
  then show ?thesis
    using psd_fin[of p' a' b'] spec_segment_distance_nonneg[of p' a' b'] by auto
qed

lemma fgt_nonneg_neg: "fgt (Fin 0) eps \<Longrightarrow> 0 \<le> d \<Longrightarrow> fgt (Fin d) eps"
  by (cases eps) auto

lemma seg_dists_finite:
  assumes fin: "\<forall>p \<in> set pts. finite_point p" and j: "j < length pts" and i: "i < j"
    and x: "x \<in> set (seg_dists pts i j)"
  shows "\<exists>d. 0 \<le> d \<and> x = Fin d"
proof -
  from x obtain p where p: "p \<in> set (take (j - Suc i) (drop (Suc i) pts))"
    and xp: "x = point_segment_distance_numpy p (pts ! i) (pts ! j)"
    by (auto simp: seg_dists_def)
  have "p \<in> set pts" using p by (meson in_set_takeD in_set_dropD)
  then have "finite_point p" using fin by simp
  moreover have "finite_point (pts ! i)" "finite_point (pts ! j)"
    using fin i j by simp_all
  ultimately show ?thesis unfolding xp by (rule psd_finite_nonneg)
qed

lemma rdp_split_neg:
  assumes "\<forall>p \<in> set pts. finite_point p" and "fgt (Fin 0) eps" and "j < length pts"
  shows "rdp_split pts eps i j = {i<..<j}"
  using assms
proof (induction pts eps i j rule: rdp_split.induct)
  case (1 pts eps i j)
  show ?case
  proof (cases "j \<le> Suc i")
    case True
    then have "rdp_split pts eps i j = {}" by (subst rdp_split.simps) simp
    with True show ?thesis by auto
  next
    case False
    then have c: "\<not> (j \<le> Suc i \<or> length pts \<le> j)" using "1.prems"(3) by simp
    have len: "length (seg_dists pts i j) = j - Suc i"
      using "1.prems"(3) by (rule length_seg_dists)
    then obtain d ds where dds: "seg_dists pts i j = d # ds"
      using False by (cases "seg_dists pts i j") auto
    let ?r = "argmax d ds"
    let ?m = "Suc i + ?r"
    have r: "?r < j - Suc i" using argmax_lt[of d ds] len dds by simp
    then have rl: "?r < length (d # ds)" using len dds by simp
    have "(d # ds) ! ?r \<in> set (seg_dists pts i j)"
      unfolding dds using rl by (rule nth_mem)
    then obtain v where v: "0 \<le> v" "(d # ds) ! ?r = Fin v"
      using seg_dists_finite[OF "1.prems"(1,3)] False by (metis not_less_eq_eq le_less_linear less_imp_le_nat Suc_lessD)
    have g: "fgt ((d # ds) ! ?r) eps"
      unfolding v(2) using "1.prems"(2) v(1) by (rule fgt_nonneg_neg)
    have mj: "?m < length pts" using r "1.prems"(3) by simp
    have a: "rdp_split pts eps i ?m = {i<..<?m}"
      using "1.IH"(1)[OF c dds g "1.prems"(1,2) mj] .
    have b: "rdp_split pts eps ?m j = {?m<..<j}"
      using "1.IH"(2)[OF c dds g "1.prems"] .
    have e: "rdp_split pts eps i j = insert ?m (rdp_split pts eps i ?m \<union> rdp_split pts eps ?m j)"
      using c dds g by (subst rdp_split.simps) simp
    show ?thesis unfolding e a b using r by auto
  qed
qed

lemma rdp_indices_all_kept:
  assumes "\<forall>p \<in> set pts. finite_point p" and "fgt (Fin 0) eps"
  shows "rdp_indices pts eps = Some (Inr [0..<length pts])"
proof (cases "length pts \<le> 2")
  case True
  then show ?thesis by (rule rdp_indices_short)
next
  case False
  have "rdp_split pts eps 0 (length pts - 1) = {0<..<length pts - 1}"
    using assms False by (intro rdp_split_neg) simp_all
  then have "\<forall>k \<in> set [0..<length pts]. kept pts eps k"
    by (auto simp: kept_def)
  then have "filter (kept pts eps) [0..<length pts] = [0..<length pts]"
    by (simp only: filter_True)
  then show ?thesis using False by (simp add: rdp_indices_long)
qed

lemma foldl_fadd_Fin: "foldl fadd (Fin s) (map Fin xs) = Fin (s + sum_list xs)"
  by (induction xs arbitrary: s) (simp_all add: add.assoc)

lemma np_mean_Fin:
  "xs \<noteq> [] \<Longrightarrow> np_mean (map Fin xs) = Fin (sum_list xs / real (length xs))"
  by (simp add: np_mean_def foldl_fadd_Fin)

lemma latlon_to_xy_Fin:
  assumes "length lats = length lons"
  shows "latlon_to_xy (map Fin lats) (map Fin lons) = Inr (map fin_pt (spec_project lats lons))"
proof (cases "lats = []")
  case True
  then show ?thesis by (simp add: latlon_to_xy_def spec_project_def)
next
  case False
  have z: "zip (map f xs) (map g ys) = map (\<lambda>(x, y). (f x, g y)) (zip xs ys)"
    for f :: "real \<Rightarrow> fl" and g :: "real \<Rightarrow> fl" and xs ys
    by (simp add: zip_map_map)
  show ?thesis
    using False assms
    by (simp add: latlon_to_xy_def np_mean_Fin deg2rad_def EARTH_RADIUS_M_def column_stack_def
        Let_def spec_project_def fin_pt_def zip_map_map zip_commute[of lons lats] split_def)
qed

lemma rdp_indices_total:
  "\<exists>idx. rdp_indices pts eps = Some (Inr idx) \<and> set idx \<subseteq> {0..<length pts}"
proof (cases "length pts \<le> 2")
  case True
  then show ?thesis by (simp add: rdp_indices_short)
next
  case False
  then show ?thesis by (auto simp: rdp_indices_long)
qed

lemma py_take_in_range:
  "set idx \<subseteq> {0..<length xs} \<Longrightarrow> py_take xs idx = Inr (map ((!) xs) idx)"
  by (induction idx) auto

lemma latlon_to_xy_length:
  "length lats = length lons \<Longrightarrow>
   \<exists>pts. latlon_to_xy lats lons = Inr pts \<and> length pts = length lats"
  by (simp add: latlon_to_xy_def column_stack_def Let_def)

lemma latlon_to_xy_mismatch:
  "length lats \<noteq> length lons \<Longrightarrow> lats \<noteq> [] \<Longrightarrow> latlon_to_xy lats lons = Inl ValueError"
  by (simp add: latlon_to_xy_def column_stack_def Let_def)

lemma simplify_arrays_equal_length:
  assumes "length lats = length lons"
  shows "\<exists>idx. set idx \<subseteq> {0..<length lats} \<and>
           simplify_arrays lats lons eps = Some (Inr (map ((!) lats) idx, map ((!) lons) idx))"
proof (cases "length lats \<le> 2")
  case True
  have "map ((!) lats) [0..<length lats] = lats" by (rule map_nth)
  moreover have "map ((!) lons) [0..<length lats] = lons"
    unfolding assms by (rule map_nth)
  moreover have "simplify_arrays lats lons eps = Some (Inr (lats, lons))"
    using True by (simp add: simplify_arrays_def)
  ultimately show ?thesis
    by (intro exI[of _ "[0..<length lats]"]) simp
next
  case False
  from latlon_to_xy_length[OF assms] obtain pts where
    p: "latlon_to_xy lats lons = Inr pts" "length pts = length lats" by blast
  from rdp_indices_total[of pts eps] obtain idx where
    i: "rdp_indices pts eps = Some (Inr idx)" "set idx \<subseteq> {0..<length pts}" by blast
  have t1: "py_take lats idx = Inr (map ((!) lats) idx)"
    using i(2) p(2) by (intro py_take_in_range) simp
  have t2: "py_take lons idx = Inr (map ((!) lons) idx)"
    using i(2) p(2) assms by (intro py_take_in_range) simp
  have "simplify_arrays lats lons eps = Some (Inr (map ((!) lats) idx, map ((!) lons) idx))"
    using False p(1) i(1) t1 t2 by (simp add: simplify_arrays_def)
  then show ?thesis using i(2) p(2) by auto
qed

lemma simplify_Arrays:
  "simplify self (Arrays lats lons) (Some eps) =
     (case simplify_arrays lats lons eps of
        None \<Rightarrow> None
      | Some (Inl e) \<Rightarrow> Some (Inl e)
      | Some (Inr r) \<Rightarrow> Some (Inr (Arrays (fst r) (snd r))))"
  by (simp add: simplify_def)

lemma ssd_at_a: "spec_segment_distance a a b = 0"
  by (simp add: spec_segment_distance_def euclid_def proj_param_def on_segment_def)

lemma ssd_perp: "Y \<noteq> 0 \<Longrightarrow> spec_segment_distance (X, Y) (0, 0) (0, Y) = \<bar>X\<bar>"
  by (simp add: spec_segment_distance_def euclid_def proj_param_def on_segment_def)

lemma pole_y_pos: "0 < pole_y"
  by (simp add: pole_y_def)

lemma pi_ge_three: "3 \<le> pi"
proof -
  have "sin (pi / 6) \<le> pi / 6" by (rule sin_x_le_x) simp
  then show ?thesis by (simp add: sin_30)
qed

lemma bend_x_wide: "80000 < bend_x (sqrt 3 / 2)"
proof -
  have "(17 / 10)\<^sup>2 < (3::real)" by (simp add: power2_eq_square)
  then have s: "17 / 10 < sqrt 3" by (rule real_less_rsqrt)
  have "80000 < 6371000 * (3 / 180) * ((17 / 10) / 2 :: real)" by simp
  also have "\<dots> \<le> 6371000 * (pi / 180) * ((17 / 10) / 2)"
    using pi_ge_three by simp
  also have "\<dots> < 6371000 * (pi / 180) * (sqrt 3 / 2)"
    using s pi_gt_zero by simp
  finally show ?thesis by (simp add: bend_x_def)
qed

lemma bend_x_narrow: "bend_x (1 / 2) \<le> 80000"
proof -
  have "6371000 * (pi / 180) * (1 / 2) \<le> 6371000 * (4 / 180) * (1 / 2 :: real)"
    using pi_less_4 by simp
  also have "\<dots> \<le> 80000" by simp
  finally show ?thesis by (simp add: bend_x_def)
qed

lemma project_first:
  "spec_project [0, 0, 0, 0, 90, 90] [0, 0, 0, 0, 1, 0] =
     [(0, 0), (0, 0), (0, 0), (0, 0), (bend_x (sqrt 3 / 2), pole_y), (0, pole_y)]"
proof -
  have "(180 / 6) * (pi / 180) = pi / 6" by simp
  then have "cos ((180 / 6) * (pi / 180)) = sqrt 3 / 2" by (simp only: cos_30)
  then show ?thesis
    by (simp add: spec_project_def bend_x_def pole_y_def)
qed

lemma project_second:
  "spec_project [0, 90, 90] [0, 1, 0] = [(0, 0), (bend_x (1 / 2), pole_y), (0, pole_y)]"
proof -
  have "(180 / 3) * (pi / 180) = pi / 3" by simp
  then have "cos ((180 / 3) * (pi / 180)) = 1 / 2" by (simp only: cos_60)
  then show ?thesis
    by (simp add: spec_project_def bend_x_def pole_y_def)
qed

lemma run1_inner:
  "rdp_split (map fin_pt [(0, 0), (0, 0), (0, 0), (0, 0), (X, Y), (0, Y)]) (Fin 80000) 0 4 = {}"
  by (subst rdp_split.simps) (simp add: seg_dists_def psd_fin ssd_at_a argmax_def)

lemma run1_last:
  "rdp_split (map fin_pt [(0, 0), (0, 0), (0, 0), (0, 0), (X, Y), (0, Y)]) (Fin 80000) 4 5 = {}"
  by (subst rdp_split.simps) simp

lemma run1_split:
  assumes "0 < Y" "80000 < X"
  shows "rdp_split (map fin_pt [(0, 0), (0, 0), (0, 0), (0, 0), (X, Y), (0, Y)]) (Fin 80000) 0 5 = {4}"
proof -
  have i4: "(4::nat) = Suc (Suc (Suc (Suc 0)))" by simp
  show ?thesis
    using assms run1_inner[of X Y, unfolded i4] run1_last[of X Y, unfolded i4]
    by (subst rdp_split.simps)
       (simp add: seg_dists_def psd_fin ssd_at_a ssd_perp argmax_def)
qed

lemma run2_split:
  assumes "0 < Y" "0 \<le> X" "X \<le> 80000"
  shows "rdp_split (map fin_pt [(0, 0), (X, Y), (0, Y)]) (Fin 80000) 0 2 = {}"
  using assms
  by (subst rdp_split.simps) (simp add: seg_dists_def psd_fin ssd_perp argmax_def)

lemma run1_indices:
  "rdp_indices (map fin_pt (spec_project [0, 0, 0, 0, 90, 90] [0, 0, 0, 0, 1, 0])) (Fin 80000) =
     Some (Inr [0, 4, 5])"
proof -
  have i5: "(5::nat) = Suc (Suc (Suc (Suc (Suc 0))))" by simp
  have s: "rdp_split (map fin_pt [(0, 0), (0, 0), (0, 0), (0, 0), (bend_x (sqrt 3 / 2), pole_y), (0, pole_y)])
             (Fin 80000) 0 5 = {4}"
    using pole_y_pos bend_x_wide by (rule run1_split)
  show ?thesis
    unfolding project_first
    using s[unfolded i5] by (simp add: rdp_indices_long kept_def upt_rec)
qed

lemma run2_indices:
  "rdp_indices (map fin_pt (spec_project [0, 90, 90] [0, 1, 0])) (Fin 80000) = Some (Inr [0, 2])"
proof -
  have i2: "(2::nat) = Suc (Suc 0)" by simp
  have "0 \<le> bend_x (1 / 2)" by (simp add: bend_x_def)
  with pole_y_pos have
    s: "rdp_split (map fin_pt [(0, 0), (bend_x (1 / 2), pole_y), (0, pole_y)]) (Fin 80000) 0 2 = {}"
    using bend_x_narrow by (rule run2_split)
  show ?thesis
    unfolding project_second
    using s[unfolded i2] by (simp add: rdp_indices_long kept_def upt_rec)
qed

lemma finite_point_fin_pt_iff: "finite_point (fin_pt q)"
  by (simp add: finite_point_def fin_pt_def)

lemma length_spec_project:
  "length lats = length lons \<Longrightarrow> length (spec_project lats lons) = length lats"
  by (simp add: spec_project_def Let_def)

lemma simplify_arrays_all_kept:
  assumes len: "length lats = length lons" and neg: "fgt (Fin 0) eps"
  shows "simplify_arrays (map Fin lats) (map Fin lons) eps = Some (Inr (map Fin lats, map Fin lons))"
proof (cases "length lats \<le> 2")
  case True
  then show ?thesis by (simp add: simplify_arrays_def)
next
  case False
  let ?pts = "map fin_pt (spec_project lats lons)"
  have p: "latlon_to_xy (map Fin lats) (map Fin lons) = Inr ?pts"
    using len by (rule latlon_to_xy_Fin)
  have n: "length ?pts = length lats" using len by (simp add: length_spec_project)
  have "\<forall>p \<in> set ?pts. finite_point p" by (auto simp: finite_point_fin_pt_iff)
  then have i: "rdp_indices ?pts eps = Some (Inr [0..<length lats])"
    using rdp_indices_all_kept[OF _ neg, of ?pts] n by simp
  have t1: "py_take (map Fin lats) [0..<length lats] = Inr (map Fin lats)"
    using py_take_in_range[of "[0..<length lats]" "map Fin lats"] map_nth[of "map Fin lats"]
    by simp
  have t2: "py_take (map Fin lons) [0..<length lats] = Inr (map Fin lons)"
    using py_take_in_range[of "[0..<length lons]" "map Fin lons"] map_nth[of "map Fin lons"] len
    by simp
  show ?thesis using False p i t1 t2 by (simp add: simplify_arrays_def)
qed

lemma beats_trans: "beats x y \<Longrightarrow> beats y z \<Longrightarrow> beats x z"
  by (cases x; cases y; cases z) (auto simp: beats_def)

lemma beats_asym: "beats x y \<Longrightarrow> \<not> beats y x"
  by (cases x; cases y) (auto simp: beats_def)

lemma beats_weak: "\<not> beats y b \<Longrightarrow> beats x b \<Longrightarrow> beats x y"
  by (cases x; cases y; cases b) (auto simp: beats_def)

lemma argmax_from_step:
  "argmax_from bi bv k (x # xs) =
     (if beats x bv then argmax_from k x (Suc k) xs else argmax_from bi bv (Suc k) xs)"
  by (simp add: beats_def)

lemma argmax_from_is:
  assumes "is_argmax pre bi" "bv = pre ! bi" "k = length pre"
  shows "is_argmax (pre @ xs) (argmax_from bi bv k xs)"
  using assms
proof (induction xs arbitrary: pre bi bv k)
  case Nil
  then show ?case by simp
next
  case (Cons x xs)
  have bi: "bi < length pre" using Cons.prems(1) by (simp add: is_argmax_def)
  show ?case
  proof (cases "beats x bv")
    case True
    have "is_argmax (pre @ [x]) k"
      unfolding is_argmax_def
    proof (intro conjI allI impI)
      show "k < length (pre @ [x])" using Cons.prems(3) by simp
    next
      fix j assume j: "j < k"
      have xk: "(pre @ [x]) ! k = x" using Cons.prems(3) by simp
      have xj: "(pre @ [x]) ! j = pre ! j" using j Cons.prems(3) by (simp add: nth_append)
      have "beats x (pre ! j)"
      proof (cases "j < bi")
        case jb: True
        then have "beats (pre ! bi) (pre ! j)" using Cons.prems(1) by (simp add: is_argmax_def)
        with True Cons.prems(2) show ?thesis by (auto intro: beats_trans)
      next
        case False
        show ?thesis
        proof (cases "j = bi")
          case True
          with \<open>beats x bv\<close> Cons.prems(2) show ?thesis by simp
        next
          case nb: False
          with False have "bi < j" by simp
          then have "\<not> beats (pre ! j) (pre ! bi)"
            using Cons.prems(1,3) j by (simp add: is_argmax_def)
          with True Cons.prems(2) show ?thesis by (auto intro: beats_weak)
        qed
      qed
      then show "beats ((pre @ [x]) ! k) ((pre @ [x]) ! j)" by (simp only: xk xj)
    next
      fix j assume "j < length (pre @ [x])" "k < j"
      then show "\<not> beats ((pre @ [x]) ! j) ((pre @ [x]) ! k)"
        using Cons.prems(3) by simp
    qed
    from Cons.IH[OF this, of x "Suc k"] Cons.prems(3) True
    show ?thesis by (simp add: argmax_from_step del: argmax_from.simps)
  next
    case False
    have "is_argmax (pre @ [x]) bi"
      unfolding is_argmax_def
    proof (intro conjI allI impI)
      show "bi < length (pre @ [x])" using bi by simp
    next
      fix j assume "j < bi"
      then show "beats ((pre @ [x]) ! bi) ((pre @ [x]) ! j)"
        using Cons.prems(1) bi by (simp add: is_argmax_def nth_append)
    next
      fix j assume j: "j < length (pre @ [x])" "bi < j"
      show "\<not> beats ((pre @ [x]) ! j) ((pre @ [x]) ! bi)"
      proof (cases "j < length pre")
        case True
        then show ?thesis using Cons.prems(1) bi j by (simp add: is_argmax_def nth_append)
      next
        case nl: False
        then have "j = length pre" using j by simp
        then show ?thesis using False Cons.prems(2) bi by (simp add: nth_append)
      qed
    qed
    from Cons.IH[OF this, of bv "Suc k"] Cons.prems(2,3) False bi
    show ?thesis by (simp add: argmax_from_step nth_append del: argmax_from.simps)
  qed
qed

lemma argmax_is: "is_argmax (d # ds) (argmax d ds)"
proof -
  have "is_argmax [d] 0" by (simp add: is_argmax_def)
  from argmax_from_is[OF this, of d 1 ds] show ?thesis by (simp add: argmax_def)
qed

lemma is_argmax_unique: "is_argmax xs r \<Longrightarrow> is_argmax xs r' \<Longrightarrow> r = r'"
proof (rule ccontr)
  assume a: "is_argmax xs r" "is_argmax xs r'" and n: "r \<noteq> r'"
  show False
  proof (cases "r < r'")
    case True
    then have "beats (xs ! r') (xs ! r)" using a(2) by (simp add: is_argmax_def)
    moreover have "\<not> beats (xs ! r') (xs ! r)" using a True by (simp add: is_argmax_def)
    ultimately show False by simp
  next
    case False
    with n have lt: "r' < r" by simp
    then have "beats (xs ! r) (xs ! r')" using a(1) by (simp add: is_argmax_def)
    moreover have "\<not> beats (xs ! r) (xs ! r')" using a lt by (simp add: is_argmax_def)
    ultimately show False by simp
  qed
qed

lemma is_argmax_sub:
  assumes x: "is_argmax xs (g r')" and r: "r' < length ys"
    and mono: "\<And>k1 k2. k1 < k2 \<Longrightarrow> k2 < length ys \<Longrightarrow> g k1 < g k2"
    and rng: "\<And>k. k < length ys \<Longrightarrow> g k < length xs"
    and val: "\<And>k. k < length ys \<Longrightarrow> ys ! k = xs ! g k"
  shows "is_argmax ys r'"
  unfolding is_argmax_def
proof (intro conjI allI impI)
  show "r' < length ys" by (rule r)
next
  fix k assume k: "k < r'"
  then have "g k < g r'" using mono r by simp
  then have "beats (xs ! g r') (xs ! g k)" using x by (simp add: is_argmax_def)
  then show "beats (ys ! r') (ys ! k)" using val r k by simp
next
  fix k assume k: "k < length ys" "r' < k"
  then have "g r' < g k" using mono by simp
  then have "\<not> beats (xs ! g k) (xs ! g r')" using x rng[OF k(1)] by (simp add: is_argmax_def)
  then show "\<not> beats (ys ! k) (ys ! r')" using val r k by simp
qed

lemma seg_dists_nth:
  "j < length pts \<Longrightarrow> k < j - Suc i \<Longrightarrow>
   seg_dists pts i j ! k = point_segment_distance_numpy (pts ! (Suc i + k)) (pts ! i) (pts ! j)"
  by (simp add: seg_dists_def)

lemma sub_split:
  assumes "sorted_wrt (<) ks" and "b < length ks" and "a < b"
    and "ks ! a = i" and "ks ! b = j" and "j < length pts"
    and "{ks ! k | k. a < k \<and> k < b} = rdp_split pts eps i j"
  shows "rdp_split (map ((!) pts) ks) eps a b = {a<..<b}"
  using assms
proof (induction pts eps i j arbitrary: a b rule: rdp_split.induct)
  case (1 pts eps i j)
  let ?pts' = "map ((!) pts) ks"
  have sorted: "\<And>p q. p < q \<Longrightarrow> q < length ks \<Longrightarrow> ks ! p < ks ! q"
    using "1.prems"(1) by (simp add: sorted_wrt_nth_less)
  have empty_case: "rdp_split pts eps i j = {} \<Longrightarrow> ?case"
  proof -
    assume e: "rdp_split pts eps i j = {}"
    have "b \<le> Suc a"
    proof (rule ccontr)
      assume "\<not> b \<le> Suc a"
      then have "a < Suc a \<and> Suc a < b" by simp
      then have "ks ! Suc a \<in> {ks ! k | k. a < k \<and> k < b}" by blast
      with "1.prems"(7) e show False by blast
    qed
    then have "rdp_split ?pts' eps a b = {}" by (subst rdp_split.simps) simp
    with \<open>b \<le> Suc a\<close> show ?case by auto
  qed
  show ?case
  proof (cases "j \<le> Suc i \<or> length pts \<le> j")
    case True
    then have "rdp_split pts eps i j = {}" by (subst rdp_split.simps) simp
    then show ?thesis by (rule empty_case)
  next
    case False
    have len: "length (seg_dists pts i j) = j - Suc i"
      using "1.prems"(6) by (rule length_seg_dists)
    then obtain d ds where dds: "seg_dists pts i j = d # ds"
      using False by (cases "seg_dists pts i j") auto
    let ?r = "argmax d ds"
    let ?m = "Suc i + ?r"
    have r: "?r < j - Suc i" using argmax_lt[of d ds] len dds by simp
    show ?thesis
    proof (cases "fgt ((d # ds) ! ?r) eps")
      case nosplit: False
      with False dds have "rdp_split pts eps i j = {}" by (subst rdp_split.simps) simp
      then show ?thesis by (rule empty_case)
    next
      case True
      let ?S1 = "rdp_split pts eps i ?m" and ?S2 = "rdp_split pts eps ?m j"
      have e: "rdp_split pts eps i j = insert ?m (?S1 \<union> ?S2)"
        using False dds True by (subst rdp_split.simps) simp
      have S1: "?S1 \<subseteq> {i<..<?m}" and S2: "?S2 \<subseteq> {?m<..<j}"
        by (rule rdp_split_bounds)+
      have S: "rdp_split pts eps i j \<subseteq> {i<..<j}" by (rule rdp_split_bounds)
      have "?m \<in> {ks ! k | k. a < k \<and> k < b}" using "1.prems"(7) e by simp
      then obtain c where c: "a < c" "c < b" "ks ! c = ?m" by auto
      have cl: "c < length ks" using c(2) "1.prems"(2) by simp
      have mem: "\<And>k. a < k \<Longrightarrow> k < b \<Longrightarrow> ks ! k \<in> insert ?m (?S1 \<union> ?S2)"
        using "1.prems"(7) e by auto
      have s1: "{ks ! k | k. a < k \<and> k < c} = ?S1"
      proof (intro equalityI subsetI)
        fix x assume "x \<in> {ks ! k | k. a < k \<and> k < c}"
        then obtain k where k: "x = ks ! k" "a < k" "k < c" by auto
        have "ks ! k < ?m" using sorted[OF k(3) cl] c(3) by simp
        moreover have "ks ! k \<in> insert ?m (?S1 \<union> ?S2)" using mem k c by simp
        ultimately show "x \<in> ?S1" using S2 k(1) by auto
      next
        fix x assume x: "x \<in> ?S1"
        then have "x \<in> {ks ! k | k. a < k \<and> k < b}" using "1.prems"(7) e by simp
        then obtain k where k: "x = ks ! k" "a < k" "k < b" by auto
        have "x < ?m" using x S1 by auto
        have "k < c"
        proof (rule ccontr)
          assume "\<not> k < c"
          then have "c = k \<or> c < k" by auto
          then have "ks ! c \<le> ks ! k"
            using sorted[of c k] k(3) "1.prems"(2) by auto
          with \<open>x < ?m\<close> k(1) c(3) show False by simp
        qed
        with k show "x \<in> {ks ! k | k. a < k \<and> k < c}" by auto
      qed
      have s2: "{ks ! k | k. c < k \<and> k < b} = ?S2"
      proof (intro equalityI subsetI)
        fix x assume "x \<in> {ks ! k | k. c < k \<and> k < b}"
        then obtain k where k: "x = ks ! k" "c < k" "k < b" by auto
        have "?m < ks ! k" using sorted[OF k(2)] k(3) "1.prems"(2) c(3) by simp
        moreover have "ks ! k \<in> insert ?m (?S1 \<union> ?S2)" using mem k c by simp
        ultimately show "x \<in> ?S2" using S1 k(1) by auto
      next
        fix x assume x: "x \<in> ?S2"
        then have "x \<in> {ks ! k | k. a < k \<and> k < b}" using "1.prems"(7) e by simp
        then obtain k where k: "x = ks ! k" "a < k" "k < b" by auto
        have "?m < x" using x S2 by auto
        have "c < k"
        proof (rule ccontr)
          assume "\<not> c < k"
          then have "k = c \<or> k < c" by auto
          then have "ks ! k \<le> ks ! c"
            using sorted[of k c] cl by auto
          with \<open>?m < x\<close> k(1) c(3) show False by simp
        qed
        with k show "x \<in> {ks ! k | k. c < k \<and> k < b}" by auto
      qed
      have mj: "?m < length pts" using r "1.prems"(6) by simp
      have ih1: "rdp_split ?pts' eps a c = {a<..<c}"
        using "1.IH"(1)[OF False dds True "1.prems"(1) cl c(1) "1.prems"(4) c(3) mj s1] .
      have ih2: "rdp_split ?pts' eps c b = {c<..<b}"
        using "1.IH"(2)[OF False dds True "1.prems"(1,2) c(2,3) "1.prems"(5,6) s2] .
      \<comment> \<open>the distances of the reduced list are a subsequence of the original ones\<close>
      have blen: "b < length ?pts'" using "1.prems"(2) by simp
      have len': "length (seg_dists ?pts' a b) = b - Suc a"
        using blen by (rule length_seg_dists)
      then obtain d' ds' where dds': "seg_dists ?pts' a b = d' # ds'"
        using c by (cases "seg_dists ?pts' a b") auto
      let ?g = "\<lambda>k. ks ! (Suc a + k) - Suc i"
      have inner: "\<And>k. k < b - Suc a \<Longrightarrow> i < ks ! (Suc a + k) \<and> ks ! (Suc a + k) < j"
      proof -
        fix k assume "k < b - Suc a"
        then have "a < Suc a + k" "Suc a + k < b" by simp_all
        then have "ks ! (Suc a + k) \<in> rdp_split pts eps i j" using "1.prems"(7) by blast
        with S show "i < ks ! (Suc a + k) \<and> ks ! (Suc a + k) < j" by auto
      qed
      have val: "\<And>k. k < length (d' # ds') \<Longrightarrow> (d' # ds') ! k = (d # ds) ! ?g k"
      proof -
        fix k assume "k < length (d' # ds')"
        then have k: "k < b - Suc a" using len' dds' by simp
        have q: "Suc a + k < length ks" using k "1.prems"(2) by simp
        have "(d' # ds') ! k =
              point_segment_distance_numpy (?pts' ! (Suc a + k)) (?pts' ! a) (?pts' ! b)"
          using seg_dists_nth[OF blen k] dds' by simp
        also have "\<dots> = point_segment_distance_numpy (pts ! (ks ! (Suc a + k))) (pts ! i) (pts ! j)"
          using q "1.prems"(2,3,4,5) by simp
        also have "\<dots> = (d # ds) ! ?g k"
        proof -
          have gk: "?g k < j - Suc i" using inner[OF k] by linarith
          have gsum: "Suc i + ?g k = ks ! (Suc a + k)" using inner[OF k] by linarith
          show ?thesis using seg_dists_nth[OF "1.prems"(6) gk] dds gsum by simp
        qed
        finally show "(d' # ds') ! k = (d # ds) ! ?g k" .
      qed
      let ?r' = "c - Suc a"
      have r'l: "?r' < length (d' # ds')" using c len' dds' by simp
      have gr: "?g ?r' = ?r" using c by simp
      have "is_argmax (d # ds) (?g ?r')" unfolding gr by (rule argmax_is)
      then have "is_argmax (d' # ds') ?r'"
      proof (rule is_argmax_sub[OF _ r'l])
        fix k1 k2 assume k: "k1 < k2" "k2 < length (d' # ds')"
        then have k2: "k2 < b - Suc a" using len' dds' by simp
        then have "ks ! (Suc a + k1) < ks ! (Suc a + k2)"
          using sorted[of "Suc a + k1" "Suc a + k2"] k(1) "1.prems"(2) by simp
        moreover have "i < ks ! (Suc a + k1)" using inner[of k1] k k2 by simp
        ultimately show "?g k1 < ?g k2" by simp
      next
        fix k assume "k < length (d' # ds')"
        then have "k < b - Suc a" using len' dds' by simp
        from inner[OF this] have "?g k < j - Suc i" by linarith
        moreover have "length (d # ds) = j - Suc i" using len dds by simp
        ultimately show "?g k < length (d # ds)" by (simp only:)
      next
        fix k assume "k < length (d' # ds')"
        then show "(d' # ds') ! k = (d # ds) ! ?g k" by (rule val)
      qed
      then have am: "argmax d' ds' = ?r'"
        using argmax_is[of d' ds'] by (rule is_argmax_unique[rotated])
      have v: "(d' # ds') ! ?r' = (d # ds) ! ?r" using val[OF r'l] gr by simp
      have sc: "Suc a + ?r' = c" using c by simp
      have sp: "rdp_split ?pts' eps a b =
                insert c (rdp_split ?pts' eps a c \<union> rdp_split ?pts' eps c b)"
        using c(1,2) blen dds' am v True sc by (subst rdp_split.simps) simp
      have u: "insert c ({a<..<c} \<union> {c<..<b}) = {a<..<b}"
        using c(1,2) by auto
      show ?thesis by (simp only: sp ih1 ih2 u)
    qed
  qed
qed

lemma kept_list_sorted: "sorted_wrt (<) (filter (kept pts eps) [0..<length pts])"
  by (rule sorted_wrt_filter) simp

lemma fadd_not_fin: "\<not> is_fin a \<or> \<not> is_fin b \<Longrightarrow> \<not> is_fin (fadd a b)"
  by (cases a; cases b) auto

lemma foldl_fadd_not_fin:
  "\<not> is_fin acc \<or> (\<exists>v \<in> set xs. \<not> is_fin v) \<Longrightarrow> \<not> is_fin (foldl fadd acc xs)"
proof (induction xs arbitrary: acc)
  case Nil
  then show ?case by simp
next
  case (Cons x xs)
  show ?case
  proof (cases "is_fin (fadd acc x)")
    case True
    then have "is_fin acc" "is_fin x" using fadd_not_fin[of acc x] by auto
    with Cons.prems have "\<exists>v \<in> set xs. \<not> is_fin v" by auto
    then show ?thesis using Cons.IH[of "fadd acc x"] by simp
  next
    case False
    then show ?thesis using Cons.IH[of "fadd acc x"] by simp
  qed
qed

lemma fcos_deg2rad_not_fin: "\<not> is_fin m \<Longrightarrow> fcos (deg2rad m) = NaN"
  by (cases m) (auto simp: deg2rad_def)

lemma fdiv_not_fin: "\<not> is_fin s \<Longrightarrow> \<not> is_fin (fdiv s (Fin c))"
  by (cases s) auto

lemma cos_mean_nan:
  assumes "\<exists>v \<in> set lats. \<not> is_fin v"
  shows "fcos (deg2rad (np_mean lats)) = NaN"
proof -
  have "\<not> is_fin (foldl fadd (Fin 0) lats)" using assms by (intro foldl_fadd_not_fin) simp
  then have "\<not> is_fin (np_mean lats)" unfolding np_mean_def by (rule fdiv_not_fin)
  then show ?thesis by (rule fcos_deg2rad_not_fin)
qed

lemma fmul_NaN_right: "fmul z NaN = NaN"
  by (cases z) auto

lemma latlon_to_xy_nan:
  assumes "length lats = length lons" and "\<exists>v \<in> set lats. \<not> is_fin v"
  shows "\<exists>pts. latlon_to_xy lats lons = Inr pts \<and> length pts = length lats \<and>
           (\<forall>p \<in> set pts. fst p = NaN)"
proof -
  have ne: "length lats \<noteq> 0" using assms(2) by auto
  let ?x = "map (\<lambda>l. fmul (fmul EARTH_RADIUS_M l) NaN) (map deg2rad lons)"
  let ?y = "map (\<lambda>l. fmul EARTH_RADIUS_M l) (map deg2rad lats)"
  have e: "latlon_to_xy lats lons = Inr (zip ?x ?y)"
    using ne assms(1) cos_mean_nan[OF assms(2)]
    by (simp add: latlon_to_xy_def column_stack_def Let_def)
  have "\<forall>p \<in> set (zip ?x ?y). fst p = NaN"
    by (auto simp: fmul_NaN_right dest!: set_zip_leftD)
  then show ?thesis using e assms(1) by simp
qed

lemma psd_nan_a: "point_segment_distance_numpy p (NaN, ay) b = NaN"
proof -
  obtain px py where p: "p = (px, py)" by (cases p)
  obtain bx "by" where b: "b = (bx, by)" by (cases b)
  have s: "fsub z NaN = NaN" for z by (cases z) (auto simp: fsub_def)
  have d: "fdiv z NaN = NaN" for z by (cases z) auto
  have a: "fadd z NaN = NaN" for z by (cases z) auto
  show ?thesis
    unfolding p b
    by (simp add: point_segment_distance_numpy_def Let_def s d a fmul_NaN_right linalg_norm_def)
qed

lemma is_argmax_nan:
  assumes "is_argmax xs r" and "NaN \<in> set xs"
  shows "xs ! r = NaN"
proof (rule ccontr)
  assume n: "xs ! r \<noteq> NaN"
  from assms(2) obtain k where k: "k < length xs" "xs ! k = NaN" by (auto simp: in_set_conv_nth)
  have "k \<noteq> r" using k(2) n by auto
  then consider "k < r" | "r < k" by linarith
  then show False
  proof cases
    case 1
    then have "beats (xs ! r) (xs ! k)" using assms(1) by (simp add: is_argmax_def)
    then show False using k(2) by (simp add: beats_def)
  next
    case 2
    then have "\<not> beats (xs ! k) (xs ! r)" using assms(1) k(1) by (simp add: is_argmax_def)
    then show False using k(2) n by (simp add: beats_def)
  qed
qed

lemma filter_ends:
  assumes "2 \<le> n"
  shows "filter (\<lambda>k. k = 0 \<or> k = n - 1) [0..<n] = [0, n - 1]"
proof -
  from assms obtain c where n: "n = Suc (Suc c)"
    by (auto simp: le_iff_add)
  have u: "[0..<Suc (Suc c)] = 0 # [Suc 0..<Suc c] @ [Suc c]"
    by (simp add: upt_conv_Cons)
  have m: "filter (\<lambda>k. k = 0 \<or> k = Suc c) [Suc 0..<Suc c] = []"
    by (auto simp: filter_empty_conv)
  show ?thesis unfolding n u using m by simp
qed

lemma argmax_nan: "NaN \<in> set (d # ds) \<Longrightarrow> (d # ds) ! argmax d ds = NaN"
  using argmax_is[of d ds] by (rule is_argmax_nan)

lemma rdp_split_nan:
  assumes "NaN \<in> set (seg_dists pts i j)"
  shows "rdp_split pts eps i j = {}"
proof (cases "seg_dists pts i j")
  case Nil
  with assms show ?thesis by simp
next
  case (Cons d ds)
  then have "(d # ds) ! argmax d ds = NaN" using assms by (intro argmax_nan) simp
  then show ?thesis using Cons by (subst rdp_split.simps) simp
qed

lemma rdp_indices_nan_dist:
  assumes "2 < length pts" and "NaN \<in> set (seg_dists pts 0 (length pts - 1))"
  shows "rdp_indices pts eps = Some (Inr [0, length pts - 1])"
proof -
  have "rdp_split pts eps 0 (length pts - 1) = {}" using assms(2) by (rule rdp_split_nan)
  then have "kept pts eps = (\<lambda>k. k = 0 \<or> k = length pts - 1)"
    by (auto simp: kept_def fun_eq_iff)
  then have "filter (kept pts eps) [0..<length pts] = [0, length pts - 1]"
    using filter_ends[of "length pts"] assms(1) by simp
  then show ?thesis using assms(1) by (simp add: rdp_indices_long)
qed

lemma seg_dists_has_nan:
  assumes "0 < k" "k < length pts - 1"
    and "point_segment_distance_numpy (pts ! k) (pts ! 0) (pts ! (length pts - 1)) = NaN"
  shows "NaN \<in> set (seg_dists pts 0 (length pts - 1))"
proof -
  let ?j = "length pts - 1"
  have j: "?j < length pts" using assms(2) by simp
  have k1: "k - 1 < ?j - Suc 0" using assms(1,2) by simp
  have "seg_dists pts 0 ?j ! (k - 1) =
        point_segment_distance_numpy (pts ! (Suc 0 + (k - 1))) (pts ! 0) (pts ! ?j)"
    using j k1 by (rule seg_dists_nth)
  then have v: "seg_dists pts 0 ?j ! (k - 1) = NaN" using assms(1,3) by simp
  have "k - 1 < length (seg_dists pts 0 ?j)" using k1 j by (simp add: length_seg_dists)
  then have "seg_dists pts 0 ?j ! (k - 1) \<in> set (seg_dists pts 0 ?j)" by (rule nth_mem)
  then show ?thesis unfolding v .
qed

lemma seg_dists_all_nan:
  assumes "\<forall>p \<in> set pts. fst p = NaN" and "2 < length pts"
  shows "NaN \<in> set (seg_dists pts 0 (length pts - 1))"
proof -
  have "0 < length pts" using assms(2) by linarith
  then have "pts ! 0 \<in> set pts" by (rule nth_mem)
  then have "fst (pts ! 0) = NaN" using assms(1) by simp
  then obtain ay where a: "pts ! 0 = (NaN, ay)" by (cases "pts ! 0") simp
  have "point_segment_distance_numpy (pts ! 1) (pts ! 0) (pts ! (length pts - 1)) = NaN"
    unfolding a by (rule psd_nan_a)
  then show ?thesis using assms(2) by (intro seg_dists_has_nan[of 1]) simp_all
qed

lemma simplify_arrays_nan_lat:
  assumes len: "length lats = length lons" and long: "2 < length lats"
    and nf: "\<exists>v \<in> set lats. \<not> is_fin v"
  shows "simplify_arrays lats lons eps =
           Some (Inr ([lats ! 0, lats ! (length lats - 1)], [lons ! 0, lons ! (length lats - 1)]))"
proof -
  from latlon_to_xy_nan[OF len nf] obtain pts where
    p: "latlon_to_xy lats lons = Inr pts" "length pts = length lats" "\<forall>p \<in> set pts. fst p = NaN"
    by blast
  have l: "2 < length pts" using long p(2) by simp
  have i: "rdp_indices pts eps = Some (Inr [0, length lats - 1])"
    using rdp_indices_nan_dist[OF l seg_dists_all_nan[OF p(3) l], of eps] p(2) by simp
  have n0: "0 < length lats" "0 < length lons" "length lats - 1 < length lats"
    "length lats - 1 < length lons" using long len by linarith+
  have t1: "py_take lats [0, length lats - 1] = Inr [lats ! 0, lats ! (length lats - 1)]"
    using n0 by simp
  have t2: "py_take lons [0, length lats - 1] = Inr [lons ! 0, lons ! (length lats - 1)]"
    using n0 by simp
  have "\<not> length lats \<le> 2" using long by simp
  then show ?thesis unfolding simplify_arrays_def using p(1) i t1 t2 by simp
qed

lemma nan_mid_dist:
  "point_segment_distance_numpy (NaN, Fin 0) (Fin 0, Fin 0) (Fin 2, Fin 0) = NaN"
  by (simp add: point_segment_distance_numpy_def fsub_def linalg_norm_def Let_def)

lemma nan_mid_indices:
  "rdp_indices [(Fin 0, Fin 0), (NaN, Fin 0), (Fin 2, Fin 0)] eps = Some (Inr [0, 2])"
proof -
  let ?pts = "[(Fin 0, Fin 0), (NaN, Fin 0), (Fin 2, Fin 0)]"
  have l: "2 < length ?pts" by simp
  have "NaN \<in> set (seg_dists ?pts 0 (length ?pts - 1))"
    by (rule seg_dists_has_nan[of 1]) (simp_all add: nan_mid_dist)
  from rdp_indices_nan_dist[OF l this, of eps] show ?thesis by simp
qed

subsection \<open>Shape of the index array\<close>

text \<open>
  Claim C1. For every sequence of points and every epsilon, \<open>rdp_indices\<close> returns an index
  array that is strictly increasing, lies within \<open>{0, ..., N - 1}\<close> and, when there is at
  least one point, contains both \<open>0\<close> and \<open>N - 1\<close>.
\<close>

theorem rdp_indices_increasing_endpoints:
  "\<exists>idx. rdp_indices pts eps = Some (Inr idx) \<and> sorted_wrt (<) idx \<and>
         set idx \<subseteq> {0..<length pts} \<and>
         (1 \<le> length pts \<longrightarrow> 0 \<in> set idx \<and> length pts - 1 \<in> set idx)"
proof (cases "length pts \<le> 2")
  case True
  then have "rdp_indices pts eps = Some (Inr [0..<length pts])"
    by (rule rdp_indices_short)
  moreover have "sorted_wrt (<) [0..<length pts]" by simp
  moreover have "1 \<le> length pts \<longrightarrow> 0 \<in> set [0..<length pts] \<and> length pts - 1 \<in> set [0..<length pts]"
    by auto
  ultimately show ?thesis by auto
next
  case False
  then have e: "rdp_indices pts eps = Some (Inr (filter (kept pts eps) [0..<length pts]))"
    by (simp add: rdp_indices_long)
  have s: "sorted_wrt (<) (filter (kept pts eps) [0..<length pts])"
    by (rule sorted_wrt_filter) simp
  have m: "0 \<in> set (filter (kept pts eps) [0..<length pts])"
          "length pts - 1 \<in> set (filter (kept pts eps) [0..<length pts])"
    using False kept_ends[of pts eps] by auto
  show ?thesis using e s m by auto
qed

theorem rdp_indices_increasing_endpoints_witness:
  "\<exists>idx. rdp_indices [(Fin 0, Fin 0), (Fin 1, Fin 5), (Fin 2, Fin 0)] (Fin 1) = Some (Inr idx) \<and>
         sorted_wrt (<) idx \<and> set idx \<subseteq> {0..<3} \<and> 0 \<in> set idx \<and> 2 \<in> set idx"
  using rdp_indices_increasing_endpoints[of "[(Fin 0, Fin 0), (Fin 1, Fin 5), (Fin 2, Fin 0)]" "Fin 1"]
  by (simp add: numeral_3_eq_3 numeral_2_eq_2)

subsection \<open>No validation of epsilon\<close>

text \<open>
  Claim C2, as the code has it. No epsilon is rejected: for a negative or non-finite
  epsilon \<open>rdp_indices\<close> returns an index array for every input, and \<open>simplify\<close> returns a
  track for every pair of arrays of equal length.
\<close>

theorem no_epsilon_validation:
  assumes "fgt (Fin 0) eps \<or> \<not> is_fin eps"
  shows "(\<exists>idx. rdp_indices pts eps = Some (Inr idx)) \<and>
         (length lats = length lons \<longrightarrow>
            (\<exists>r. simplify self (Arrays lats lons) (Some eps) = Some (Inr r)))"
proof
  show "\<exists>idx. rdp_indices pts eps = Some (Inr idx)"
    using rdp_indices_total[of pts eps] by blast
  show "length lats = length lons \<longrightarrow>
          (\<exists>r. simplify self (Arrays lats lons) (Some eps) = Some (Inr r))"
  proof
    assume "length lats = length lons"
    from simplify_arrays_equal_length[OF this, of eps] show
      "\<exists>r. simplify self (Arrays lats lons) (Some eps) = Some (Inr r)"
      by (auto simp: simplify_Arrays)
  qed
qed

theorem no_epsilon_validation_witness:
  "(fgt (Fin 0) (Fin (- 1)) \<or> \<not> is_fin (Fin (- 1))) \<and>
   (\<exists>idx. rdp_indices [(Fin 0, Fin 0), (Fin 1, Fin 1), (Fin 2, Fin 0)] (Fin (- 1)) = Some (Inr idx)) \<and>
   (\<exists>r. simplify \<lparr>epsilon_meters = Fin 10\<rparr> (Arrays [Fin 1, Fin 2, Fin 3] [Fin 4, Fin 5, Fin 6])
          (Some (Fin (- 1))) = Some (Inr r))"
proof -
  have h: "fgt (Fin 0) (Fin (- 1)) \<or> \<not> is_fin (Fin (- 1))" by simp
  show ?thesis
    using h no_epsilon_validation[OF h, of "[(Fin 0, Fin 0), (Fin 1, Fin 1), (Fin 2, Fin 0)]"
        "[Fin 1, Fin 2, Fin 3]" "[Fin 4, Fin 5, Fin 6]" "\<lparr>epsilon_meters = Fin 10\<rparr>"]
    by simp
qed

text \<open>
  Claim C2 as stated fails: with epsilon \<open>- 1\<close> both operations return a result.
\<close>

theorem no_epsilon_validation_counterexample:
  "fgt (Fin 0) (Fin (- 1)) \<and>
   rdp_indices [(Fin 0, Fin 0), (Fin 1, Fin 1), (Fin 2, Fin 0)] (Fin (- 1)) = Some (Inr [0, 1, 2]) \<and>
   simplify \<lparr>epsilon_meters = Fin 10\<rparr> (Arrays (map Fin [1, 2, 3]) (map Fin [4, 5, 6]))
     (Some (Fin (- 1))) = Some (Inr (Arrays (map Fin [1, 2, 3]) (map Fin [4, 5, 6])))"
proof -
  have g: "fgt (Fin 0) (Fin (- 1))" by simp
  have f: "\<forall>p \<in> set [(Fin 0, Fin 0), (Fin 1, Fin 1), (Fin 2, Fin 0)]. finite_point p"
    by (simp add: finite_point_def)
  have u: "[0..<3] = [0, 1, 2::nat]" by (simp add: upt_rec)
  have a: "rdp_indices [(Fin 0, Fin 0), (Fin 1, Fin 1), (Fin 2, Fin 0)] (Fin (- 1)) = Some (Inr [0, 1, 2])"
    using rdp_indices_all_kept[OF f g] u by simp
  have l: "length [1, 2, 3::real] = length [4, 5, 6::real]" by simp
  have b: "simplify_arrays (map Fin [1, 2, 3]) (map Fin [4, 5, 6]) (Fin (- 1)) =
           Some (Inr (map Fin [1, 2, 3], map Fin [4, 5, 6]))"
    using l g by (rule simplify_arrays_all_kept)
  show ?thesis using g a b by (simp add: simplify_Arrays)
qed

subsection \<open>Monotonic reduction\<close>

text \<open>
  Claim C3. For tolerances \<open>eps1 < eps2\<close> and the same points, the indices retained with
  \<open>eps2\<close> are among those retained with \<open>eps1\<close>, so their number is not larger.
\<close>

theorem rdp_indices_monotone:
  assumes "fgt eps2 eps1"
  shows "\<exists>idx1 idx2. rdp_indices pts eps1 = Some (Inr idx1) \<and>
                     rdp_indices pts eps2 = Some (Inr idx2) \<and>
                     set idx2 \<subseteq> set idx1 \<and> length idx2 \<le> length idx1"
proof (cases "length pts \<le> 2")
  case True
  then show ?thesis by (simp add: rdp_indices_short)
next
  case False
  have k: "kept pts eps2 k \<Longrightarrow> kept pts eps1 k" for k
    using rdp_split_mono[OF assms, of pts 0 "length pts - 1"] by (auto simp: kept_def)
  have "length (filter (kept pts eps2) [0..<length pts]) \<le> length (filter (kept pts eps1) [0..<length pts])"
    by (rule length_filter_mono) (rule k)
  moreover have "set (filter (kept pts eps2) [0..<length pts]) \<subseteq> set (filter (kept pts eps1) [0..<length pts])"
    using k by auto
  ultimately show ?thesis using False by (simp add: rdp_indices_long)
qed

theorem rdp_indices_monotone_witness:
  "fgt (Fin 10) (Fin 1) \<and>
   (\<exists>idx1 idx2. rdp_indices [(Fin 0, Fin 0), (Fin 1, Fin 5), (Fin 2, Fin 0)] (Fin 1) = Some (Inr idx1) \<and>
                rdp_indices [(Fin 0, Fin 0), (Fin 1, Fin 5), (Fin 2, Fin 0)] (Fin 10) = Some (Inr idx2) \<and>
                set idx2 \<subseteq> set idx1 \<and> length idx2 \<le> length idx1)"
proof -
  have h: "fgt (Fin 10) (Fin 1)" by simp
  show ?thesis
    using h rdp_indices_monotone[OF h, of "[(Fin 0, Fin 0), (Fin 1, Fin 5), (Fin 2, Fin 0)]"]
    by simp
qed

subsection \<open>Simplifying twice\<close>

text \<open>
  Claim C4, as the code has it. On fixed planar coordinates the reduction is a fixed
  point: when \<open>rdp_indices\<close> retains the indices \<open>idx\<close>, the retained points, reduced again
  with the same epsilon, are all retained. (\<open>simplify\<close> projects the reduced track anew, so
  the coordinates of its second run are not those of the first.)
\<close>

theorem rdp_indices_idempotent_planar:
  assumes "rdp_indices pts eps = Some (Inr idx)"
  shows "rdp_indices (map ((!) pts) idx) eps = Some (Inr [0..<length idx])"
proof (cases "length pts \<le> 2")
  case True
  then have "idx = [0..<length pts]" using assms by (simp add: rdp_indices_short)
  then have "map ((!) pts) idx = pts" "length idx = length pts" by (simp_all add: map_nth)
  then show ?thesis using True by (simp add: rdp_indices_short)
next
  case False
  let ?n = "length pts"
  let ?S = "rdp_split pts eps 0 (?n - 1)"
  have idx: "idx = filter (kept pts eps) [0..<?n]"
    using assms False by (simp add: rdp_indices_long)
  have sorted_idx: "sorted_wrt (<) idx" unfolding idx by (rule kept_list_sorted)
  have sorted: "\<And>p q. p < q \<Longrightarrow> q < length idx \<Longrightarrow> idx ! p < idx ! q"
    using sorted_idx by (simp add: sorted_wrt_nth_less)
  have S: "?S \<subseteq> {0<..<?n - 1}" by (rule rdp_split_bounds)
  have set_idx: "set idx = insert 0 (insert (?n - 1) ?S)"
    using False S unfolding idx by (fastforce simp: kept_def)
  let ?pts' = "map ((!) pts) idx"
  show ?thesis
  proof (cases "length idx \<le> 2")
    case True
    then show ?thesis using rdp_indices_short[of ?pts' eps] by simp
  next
    case long: False
    let ?b = "length idx - 1"
    have b: "?b < length idx" "0 < ?b" using long by simp_all
    have first: "idx ! 0 = 0"
    proof -
      have "0 \<in> set idx" using set_idx by simp
      then obtain p where p: "p < length idx" "idx ! p = 0" by (auto simp: in_set_conv_nth)
      show ?thesis
      proof (cases "p = 0")
        case True
        with p show ?thesis by simp
      next
        case False
        then have "idx ! 0 < idx ! p" using sorted[of 0 p] p(1) by simp
        with p(2) show ?thesis by simp
      qed
    qed
    have last: "idx ! ?b = ?n - 1"
    proof -
      have "?n - 1 \<in> set idx" using set_idx by simp
      then obtain q where q: "q < length idx" "idx ! q = ?n - 1" by (auto simp: in_set_conv_nth)
      have "idx ! ?b \<in> set idx" using b(1) by (rule nth_mem)
      then have le: "idx ! ?b \<le> ?n - 1" using set_idx S by auto
      show ?thesis
      proof (cases "q = ?b")
        case True
        with q show ?thesis by simp
      next
        case False
        then have "q < ?b" using q(1) by simp
        then have "idx ! q < idx ! ?b" using sorted[of q ?b] b(1) by simp
        with q(2) le show ?thesis by simp
      qed
    qed
    have mid: "{idx ! k | k. 0 < k \<and> k < ?b} = ?S"
    proof (intro equalityI subsetI)
      fix x assume "x \<in> {idx ! k | k. 0 < k \<and> k < ?b}"
      then obtain k where k: "x = idx ! k" "0 < k" "k < ?b" by auto
      have "idx ! 0 < idx ! k" using sorted[of 0 k] k b(1) by simp
      moreover have "idx ! k < idx ! ?b" using sorted[of k ?b] k b(1) by simp
      moreover have "idx ! k \<in> set idx" using k(3) b(1) by simp
      ultimately show "x \<in> ?S" using first last set_idx k(1) by auto
    next
      fix x assume x: "x \<in> ?S"
      then have "x \<in> set idx" using set_idx by simp
      then obtain k where k: "k < length idx" "idx ! k = x" by (auto simp: in_set_conv_nth)
      have "x \<noteq> 0" "x \<noteq> ?n - 1" using x S by auto
      then have ne: "idx ! k \<noteq> idx ! 0" "idx ! k \<noteq> idx ! ?b"
        using k(2) first last by simp_all
      have "k \<noteq> 0"
      proof
        assume "k = 0"
        with ne(1) show False by simp
      qed
      moreover have "k \<noteq> ?b"
      proof
        assume "k = ?b"
        with ne(2) show False by simp
      qed
      ultimately have "k \<noteq> 0 \<and> k \<noteq> ?b" by simp
      then have "0 < k \<and> k < ?b" using k(1) by linarith
      with k(2) show "x \<in> {idx ! k | k. 0 < k \<and> k < ?b}" by blast
    qed
    have nl: "?n - 1 < length pts" using False by simp
    have all: "rdp_split ?pts' eps 0 ?b = {0<..<?b}"
      using sorted_idx b(1) b(2) first last nl mid by (rule sub_split)
    have "\<forall>k \<in> set [0..<length ?pts']. kept ?pts' eps k"
      using all by (auto simp: kept_def)
    then have "filter (kept ?pts' eps) [0..<length ?pts'] = [0..<length ?pts']"
      by (simp only: filter_True)
    then show ?thesis using long rdp_indices_long[of ?pts' eps] by simp
  qed
qed

theorem rdp_indices_idempotent_planar_witness:
  "rdp_indices (map fin_pt (spec_project [0, 0, 0, 0, 90, 90] [0, 0, 0, 0, 1, 0])) (Fin 80000) =
     Some (Inr [0, 4, 5]) \<and>
   rdp_indices (map ((!) (map fin_pt (spec_project [0, 0, 0, 0, 90, 90] [0, 0, 0, 0, 1, 0]))) [0, 4, 5])
     (Fin 80000) = Some (Inr [0, 1, 2])"
proof -
  have u: "[0..<3] = [0, 1, 2::nat]" by (simp add: upt_rec)
  have l: "length [0, 4, 5::nat] = 3" by simp
  show ?thesis
    using run1_indices rdp_indices_idempotent_planar[OF run1_indices]
    unfolding l u by simp
qed

text \<open>
  Claim C4 as stated fails: the sample track keeps three points at epsilon 80000, and
  simplifying these three again, projected around their own mean latitude of 60 degrees
  instead of 30, drops the middle one.
\<close>

theorem simplify_idempotent_counterexample:
  "simplify \<lparr>epsilon_meters = Fin 10\<rparr>
     (Arrays (map Fin [0, 0, 0, 0, 90, 90]) (map Fin [0, 0, 0, 0, 1, 0])) (Some (Fin 80000)) =
     Some (Inr (Arrays (map Fin [0, 90, 90]) (map Fin [0, 1, 0]))) \<and>
   simplify \<lparr>epsilon_meters = Fin 10\<rparr>
     (Arrays (map Fin [0, 90, 90]) (map Fin [0, 1, 0])) (Some (Fin 80000)) =
     Some (Inr (Arrays (map Fin [0, 90]) (map Fin [0, 0])))"
proof -
  have a: "latlon_to_xy (map Fin [0, 0, 0, 0, 90, 90]) (map Fin [0, 0, 0, 0, 1, 0]) =
           Inr (map fin_pt (spec_project [0, 0, 0, 0, 90, 90] [0, 0, 0, 0, 1, 0]))"
    by (rule latlon_to_xy_Fin) simp
  have b: "latlon_to_xy (map Fin [0, 90, 90]) (map Fin [0, 1, 0]) =
           Inr (map fin_pt (spec_project [0, 90, 90] [0, 1, 0]))"
    by (rule latlon_to_xy_Fin) simp
  have 1: "simplify_arrays (map Fin [0, 0, 0, 0, 90, 90]) (map Fin [0, 0, 0, 0, 1, 0]) (Fin 80000) =
           Some (Inr (map Fin [0, 90, 90], map Fin [0, 1, 0]))"
    using a run1_indices by (simp add: simplify_arrays_def)
  have 2: "simplify_arrays (map Fin [0, 90, 90]) (map Fin [0, 1, 0]) (Fin 80000) =
           Some (Inr (map Fin [0, 90], map Fin [0, 0]))"
    using b run2_indices by (simp add: simplify_arrays_def)
  show ?thesis using 1 2 by (simp add: simplify_Arrays)
qed

subsection \<open>Planar projection\<close>

text \<open>
  Claim C5. For a track of \<open>N\<close> points with finite coordinates, \<open>latlon_to_xy\<close> returns
  without error exactly \<open>N\<close> planar points in the same order, point \<open>k\<close> being
  \<open>x = R * radians(lon k) * cos(radians(mean latitude))\<close> and \<open>y = R * radians(lat k)\<close> with
  \<open>R = 6371000\<close>; for \<open>N = 0\<close> the result is empty.
\<close>

theorem latlon_to_xy_projection:
  assumes "length lats = length lons"
  shows "latlon_to_xy (map Fin lats) (map Fin lons) = Inr (map fin_pt (spec_project lats lons)) \<and>
         length (spec_project lats lons) = length lats \<and>
         (\<forall>k < length lats. spec_project lats lons ! k =
            (6371000 * (lons ! k * (pi / 180)) * cos ((sum_list lats / real (length lats)) * (pi / 180)),
             6371000 * (lats ! k * (pi / 180)))) \<and>
         (length lats = 0 \<longrightarrow> latlon_to_xy (map Fin lats) (map Fin lons) = Inr [])"
  using assms latlon_to_xy_Fin[OF assms]
  by (auto simp: spec_project_def Let_def)

theorem latlon_to_xy_projection_witness:
  "latlon_to_xy (map Fin [0, 60]) (map Fin [1, 2]) = Inr (map fin_pt (spec_project [0, 60] [1, 2])) \<and>
   length (spec_project [0, 60] [1, 2]) = 2 \<and>
   spec_project [0, 60] [1, 2] ! 1 =
     (6371000 * (2 * (pi / 180)) * cos ((sum_list [0, 60] / 2) * (pi / 180)), 6371000 * (60 * (pi / 180))) \<and>
   latlon_to_xy (map Fin []) (map Fin []) = Inr []"
proof -
  have a: "length [0, 60::real] = length [1, 2::real]" by simp
  have b: "length ([]::real list) = length ([]::real list)" by simp
  show ?thesis
    using latlon_to_xy_projection[OF a] latlon_to_xy_projection[OF b] by simp
qed

subsection \<open>Point to segment distance\<close>

text \<open>
  Claim C6. For points with finite coordinates, the distance used by the reducer is the
  distance to the finite segment: for \<open>a = b\<close> it is the Euclidean distance from \<open>p\<close> to that
  point; otherwise the projection parameter is clamped to \<open>[0, 1]\<close> and the Euclidean
  distance to that location of the segment is returned, which is the least distance from
  \<open>p\<close> to any location of the segment.
\<close>

theorem point_segment_distance_clamped:
  "point_segment_distance_numpy (fin_pt p) (fin_pt a) (fin_pt b) =
     Fin (spec_segment_distance p a b) \<and>
   (a = b \<longrightarrow> point_segment_distance_numpy (fin_pt p) (fin_pt a) (fin_pt b) = Fin (euclid p a)) \<and>
   (a \<noteq> b \<longrightarrow> point_segment_distance_numpy (fin_pt p) (fin_pt a) (fin_pt b) =
      Fin (euclid p (on_segment a b (min (max (proj_param p a b) 0) 1)))) \<and>
   (\<forall>s. 0 \<le> s \<and> s \<le> 1 \<longrightarrow> spec_segment_distance p a b \<le> euclid p (on_segment a b s))"
  using seg_nearest[of _ p a b]
  by (simp add: psd_fin spec_segment_distance_def)

theorem point_segment_distance_clamped_witness:
  "point_segment_distance_numpy (fin_pt (3, 4)) (fin_pt (0, 0)) (fin_pt (0, 0)) = Fin (euclid (3, 4) (0, 0)) \<and>
   point_segment_distance_numpy (fin_pt (5, 1)) (fin_pt (0, 0)) (fin_pt (2, 0)) =
     Fin (euclid (5, 1) (on_segment (0, 0) (2, 0) (min (max (proj_param (5, 1) (0, 0) (2, 0)) 0) 1))) \<and>
   spec_segment_distance (5, 1) (0, 0) (2, 0) \<le> euclid (5, 1) (on_segment (0, 0) (2, 0) (1 / 2))"
  using point_segment_distance_clamped[of "(3, 4)" "(0, 0)" "(0, 0)"]
        point_segment_distance_clamped[of "(5, 1)" "(0, 0)" "(2, 0)"]
  by (simp add: spec_segment_distance_def)

subsection \<open>Degenerate inputs\<close>

text \<open>
  Claim C7. For every epsilon, \<open>rdp_indices\<close> returns the empty index array for no points,
  \<open>[0]\<close> for one point and \<open>[0, 1]\<close> for two points, without error; in general an input of
  at most two points returns all its indices.
\<close>

theorem rdp_indices_degenerate:
  "(length pts = 0 \<longrightarrow> rdp_indices pts eps = Some (Inr [])) \<and>
   (length pts = 1 \<longrightarrow> rdp_indices pts eps = Some (Inr [0])) \<and>
   (length pts = 2 \<longrightarrow> rdp_indices pts eps = Some (Inr [0, 1])) \<and>
   (length pts \<le> 2 \<longrightarrow> rdp_indices pts eps = Some (Inr [0..<length pts]))"
proof -
  have "[0..<2] = [0, Suc 0]" by (simp add: upt_rec)
  then show ?thesis
    by (auto simp: rdp_indices_def rdp_indices_numpy_def Let_def)
qed

theorem rdp_indices_degenerate_witness:
  "rdp_indices [] (Fin (- 5)) = Some (Inr []) \<and>
   rdp_indices [(Fin 3, Fin 4)] NaN = Some (Inr [0]) \<and>
   rdp_indices [(Fin 3, Fin 4), (Fin 0, Fin 1)] (Fin 10) = Some (Inr [0, 1]) \<and>
   rdp_indices [(Fin 3, Fin 4), (Fin 0, Fin 1)] PInf = Some (Inr [0..<2])"
  using rdp_indices_degenerate[of "[]" "Fin (- 5)"]
        rdp_indices_degenerate[of "[(Fin 3, Fin 4)]" NaN]
        rdp_indices_degenerate[of "[(Fin 3, Fin 4), (Fin 0, Fin 1)]" "Fin 10"]
        rdp_indices_degenerate[of "[(Fin 3, Fin 4), (Fin 0, Fin 1)]" PInf]
  by (simp add: upt_rec)

subsection \<open>Arrays of different lengths\<close>

text \<open>
  Claim C8, as the code has it. For a pair of arrays of different lengths, \<open>simplify\<close>
  fails with ValueError when there are more than two latitudes (the error comes from
  stacking the two projected columns); with at most two latitudes it returns both arrays
  unchanged, without comparing their lengths.
\<close>

theorem simplify_arrays_length_mismatch:
  assumes "length lats \<noteq> length lons"
  shows "simplify self (Arrays lats lons) (Some eps) =
           (if length lats \<le> 2 then Some (Inr (Arrays lats lons)) else Some (Inl ValueError))"
proof (cases "length lats \<le> 2")
  case True
  then show ?thesis by (simp add: simplify_Arrays simplify_arrays_def)
next
  case False
  then have "lats \<noteq> []" by auto
  with assms have "latlon_to_xy lats lons = Inl ValueError" by (rule latlon_to_xy_mismatch)
  with False show ?thesis by (simp add: simplify_Arrays simplify_arrays_def)
qed

theorem simplify_arrays_length_mismatch_witness:
  "simplify \<lparr>epsilon_meters = Fin 10\<rparr> (Arrays [Fin 1, Fin 2, Fin 3] [Fin 1, Fin 2]) (Some (Fin 5)) =
     Some (Inl ValueError) \<and>
   simplify \<lparr>epsilon_meters = Fin 10\<rparr> (Arrays [Fin 1, Fin 2] [Fin 1]) (Some (Fin 5)) =
     Some (Inr (Arrays [Fin 1, Fin 2] [Fin 1]))"
proof -
  have a: "length [Fin 1, Fin 2, Fin 3] \<noteq> length [Fin 1, Fin 2]" by simp
  have b: "length [Fin 1, Fin 2] \<noteq> length [Fin 1]" by simp
  show ?thesis
    using simplify_arrays_length_mismatch[OF a, of "\<lparr>epsilon_meters = Fin 10\<rparr>" "Fin 5"]
          simplify_arrays_length_mismatch[OF b, of "\<lparr>epsilon_meters = Fin 10\<rparr>" "Fin 5"]
    by simp
qed

text \<open>
  Claim C8 as stated fails: two latitudes with one longitude are returned unchanged.
\<close>

theorem simplify_arrays_length_mismatch_counterexample:
  "length [Fin 48, Fin 49] \<noteq> length [Fin 2] \<and>
   simplify \<lparr>epsilon_meters = Fin 10\<rparr> (Arrays [Fin 48, Fin 49] [Fin 2]) None =
     Some (Inr (Arrays [Fin 48, Fin 49] [Fin 2]))"
  by (simp add: simplify_def simplify_arrays_def)

subsection \<open>No validation of coordinates\<close>

text \<open>
  Claim C9, as the code has it. Coordinates are not validated, and neither the call nor
  any point is rejected. For every pair of arrays of equal length, non-finite values
  included, \<open>simplify\<close> returns the rows chosen by an index array, unchanged. NaN reaches
  the comparison with epsilon: when an interior point has a NaN distance to the segment
  from the first to the last point, \<open>rdp_indices\<close> returns only \<open>[0, N - 1]\<close> for every
  epsilon; and a NaN or infinite latitude makes every projected abscissa NaN, so that
  \<open>simplify\<close> on more than two points returns exactly the first and the last row.
\<close>

theorem non_finite_coordinates_propagate:
  "(length lats = length lons \<longrightarrow>
      (\<exists>idx. set idx \<subseteq> {0..<length lats} \<and>
         simplify self (Arrays lats lons) (Some eps) =
           Some (Inr (Arrays (map ((!) lats) idx) (map ((!) lons) idx))))) \<and>
   (length lats = length lons \<and> 2 < length lats \<and> (\<exists>v \<in> set lats. \<not> is_fin v) \<longrightarrow>
      simplify self (Arrays lats lons) (Some eps) =
        Some (Inr (Arrays [lats ! 0, lats ! (length lats - 1)]
                          [lons ! 0, lons ! (length lats - 1)]))) \<and>
   (2 < length pts \<and>
    (\<exists>k. 0 < k \<and> k < length pts - 1 \<and>
         point_segment_distance_numpy (pts ! k) (pts ! 0) (pts ! (length pts - 1)) = NaN) \<longrightarrow>
      rdp_indices pts eps = Some (Inr [0, length pts - 1]))"
proof (intro conjI impI)
  assume "length lats = length lons"
  from simplify_arrays_equal_length[OF this, of eps]
  show "\<exists>idx. set idx \<subseteq> {0..<length lats} \<and>
          simplify self (Arrays lats lons) (Some eps) =
            Some (Inr (Arrays (map ((!) lats) idx) (map ((!) lons) idx)))"
    by (auto simp: simplify_Arrays)
next
  assume a: "length lats = length lons \<and> 2 < length lats \<and> (\<exists>v \<in> set lats. \<not> is_fin v)"
  then have "simplify_arrays lats lons eps =
           Some (Inr ([lats ! 0, lats ! (length lats - 1)], [lons ! 0, lons ! (length lats - 1)]))"
    by (intro simplify_arrays_nan_lat) simp_all
  then show "simplify self (Arrays lats lons) (Some eps) =
        Some (Inr (Arrays [lats ! 0, lats ! (length lats - 1)]
                          [lons ! 0, lons ! (length lats - 1)]))"
    by (simp add: simplify_Arrays)
next
  assume a: "2 < length pts \<and>
    (\<exists>k. 0 < k \<and> k < length pts - 1 \<and>
         point_segment_distance_numpy (pts ! k) (pts ! 0) (pts ! (length pts - 1)) = NaN)"
  then obtain k where k: "0 < k" "k < length pts - 1"
    "point_segment_distance_numpy (pts ! k) (pts ! 0) (pts ! (length pts - 1)) = NaN" by blast
  from a seg_dists_has_nan[OF k] show "rdp_indices pts eps = Some (Inr [0, length pts - 1])"
    by (intro rdp_indices_nan_dist) simp_all
qed

theorem non_finite_coordinates_propagate_witness:
  "(\<exists>idx. set idx \<subseteq> {0..<3} \<and>
      simplify \<lparr>epsilon_meters = Fin 10\<rparr> (Arrays [Fin 0, NaN, Fin 0] [Fin 0, Fin 1, PInf]) (Some (Fin 5)) =
        Some (Inr (Arrays (map ((!) [Fin 0, NaN, Fin 0]) idx) (map ((!) [Fin 0, Fin 1, PInf]) idx)))) \<and>
   simplify \<lparr>epsilon_meters = Fin 10\<rparr> (Arrays [Fin 0, NaN, Fin 0] [Fin 0, Fin 1, PInf]) (Some (Fin 5)) =
     Some (Inr (Arrays [Fin 0, Fin 0] [Fin 0, PInf])) \<and>
   rdp_indices [(Fin 0, Fin 0), (NaN, Fin 0), (Fin 2, Fin 0)] (Fin 5) = Some (Inr [0, 2])"
proof -
  let ?la = "[Fin 0, NaN, Fin 0]" and ?lo = "[Fin 0, Fin 1, PInf]"
  let ?pts = "[(Fin 0, Fin 0), (NaN, Fin 0), (Fin 2, Fin 0)]"
  have a: "length ?la = length ?lo" by simp
  have b: "length ?la = length ?lo \<and> 2 < length ?la \<and> (\<exists>v \<in> set ?la. \<not> is_fin v)" by simp
  have c: "2 < length ?pts \<and>
    (\<exists>k. 0 < k \<and> k < length ?pts - 1 \<and>
         point_segment_distance_numpy (?pts ! k) (?pts ! 0) (?pts ! (length ?pts - 1)) = NaN)"
    by (intro conjI exI[of _ 1]) (simp_all add: nan_mid_dist)
  have n: "length ?la = 3" "length ?la - 1 = 2" "length ?pts - 1 = 2" by simp_all
  note t = non_finite_coordinates_propagate[of ?la ?lo "\<lparr>epsilon_meters = Fin 10\<rparr>" "Fin 5" ?pts]
  from t a have 1: "\<exists>idx. set idx \<subseteq> {0..<length ?la} \<and>
      simplify \<lparr>epsilon_meters = Fin 10\<rparr> (Arrays ?la ?lo) (Some (Fin 5)) =
        Some (Inr (Arrays (map ((!) ?la) idx) (map ((!) ?lo) idx)))" by blast
  from t b have 2: "simplify \<lparr>epsilon_meters = Fin 10\<rparr> (Arrays ?la ?lo) (Some (Fin 5)) =
        Some (Inr (Arrays [?la ! 0, ?la ! (length ?la - 1)] [?lo ! 0, ?lo ! (length ?la - 1)]))"
    by blast
  from t c have 3: "rdp_indices ?pts (Fin 5) = Some (Inr [0, length ?pts - 1])" by blast
  show ?thesis using 1 2 3 unfolding n by simp
qed

text \<open>
  Claim C9 as stated fails: a track whose latitudes are all NaN is not rejected, and the
  two rows returned still hold NaN.
\<close>

theorem nan_not_rejected_counterexample:
  "simplify \<lparr>epsilon_meters = Fin 10\<rparr> (Arrays [NaN, NaN, NaN] [Fin 0, Fin 1, Fin 2]) None =
     Some (Inr (Arrays [NaN, NaN] [Fin 0, Fin 2]))"
proof -
  let ?la = "[NaN, NaN, NaN]" and ?lo = "[Fin 0, Fin 1, Fin 2]"
  have "simplify_arrays ?la ?lo (Fin 10) =
          Some (Inr ([?la ! 0, ?la ! (length ?la - 1)], [?lo ! 0, ?lo ! (length ?la - 1)]))"
    by (rule simplify_arrays_nan_lat) simp_all
  then show ?thesis by (simp add: simplify_def)
qed

subsection \<open>Negative tolerance\<close>

text \<open>
  Claim C10, as the code has it. For every sequence of points with finite coordinates
  (float arithmetic read as exact, so without overflow) and every strictly negative
  epsilon, \<open>rdp_indices\<close> terminates without error and returns all indices
  \<open>0, ..., N - 1\<close>.
\<close>

theorem rdp_indices_negative_epsilon:
  assumes "\<forall>p \<in> set pts. finite_point p" and "fgt (Fin 0) eps"
  shows "rdp_indices pts eps = Some (Inr [0..<length pts])"
  using assms by (rule rdp_indices_all_kept)

theorem rdp_indices_negative_epsilon_witness:
  "rdp_indices [(Fin 0, Fin 0), (Fin 1, Fin 0), (Fin 2, Fin 0), (Fin 3, Fin 0)] (Fin (- 1)) =
     Some (Inr [0, 1, 2, 3])"
proof -
  have f: "\<forall>p \<in> set [(Fin 0, Fin 0), (Fin 1, Fin 0), (Fin 2, Fin 0), (Fin 3, Fin 0)]. finite_point p"
    by (simp add: finite_point_def)
  have g: "fgt (Fin 0) (Fin (- 1))" by simp
  have u: "[0..<4] = [0, 1, 2, 3::nat]" by (simp add: upt_rec)
  show ?thesis using rdp_indices_negative_epsilon[OF f g] u by simp
qed

text \<open>
  Claim C10 as stated fails: with a NaN coordinate in the middle point the distance is
  NaN, the comparison with epsilon \<open>- 1\<close> is false and index 1 is dropped.
\<close>

theorem rdp_indices_negative_epsilon_counterexample:
  "fgt (Fin 0) (Fin (- 1)) \<and>
   rdp_indices [(Fin 0, Fin 0), (NaN, Fin 0), (Fin 2, Fin 0)] (Fin (- 1)) = Some (Inr [0, 2])"
  using nan_mid_indices[of "Fin (- 1)"] by simp

end
